theory Spec2Isabelle
  imports Complex_Main
begin

section \<open>Client Reconnection Agent: \<open>WebSocketServiceClass\<close>\<close>

text \<open>
  The class lives in \<^verbatim>\<open>src/frontend/src/services/HealthService.js\<close> (second document of the
  file). Its fields are the record \<open>agent\<close>. The browser objects it drives (the sockets it has
  constructed, the timers it has set) and the effects it has on its surroundings (texts sent,
  handler invocations, exceptions that escape a callback) are the extension \<open>world\<close>.
\<close>

subsection \<open>Data\<close>

text \<open>\<^verbatim>\<open>WebSocket.readyState\<close>.\<close>

datatype readyState = CONNECTING | OPEN | CLOSING | CLOSED

text \<open>
  The value \<^verbatim>\<open>JSON.parse\<close> returns. An object is the list of its own properties; were a key to
  occur twice, the later one wins, as in \<^verbatim>\<open>JSON.parse\<close>.
\<close>

datatype json =
    JNull
  | JBool bool
  | JNumber rat
  | JString string
  | JArray "json list"
  | JObject "(string \<times> json) list"

text \<open>
  What can be thrown inside the \<^verbatim>\<open>try\<close> of \<^verbatim>\<open>onmessage\<close>: \<^verbatim>\<open>JSON.parse\<close> throws
  \<open>SyntaxError\<close>, reading a property of \<^verbatim>\<open>null\<close> throws \<open>TypeError\<close>, and a listener may throw
  anything (\<open>HandlerError\<close>).
\<close>

datatype exn = SyntaxError | TypeError | HandlerError

text \<open>
  A listener is a caller's function; the agent only stores and calls it, so it is a name here.
  Whether a call of it throws is a parameter \<open>throws\<close> of the callbacks below.
\<close>

type_synonym handler = nat

text \<open>
  The fields set by the constructor. \<open>ws\<close> is the index of the current socket in \<open>sockets\<close>
  (\<open>None\<close> is \<^verbatim>\<open>null\<close>); \<open>pingInterval\<close> is \<^verbatim>\<open>_pingInterval\<close>, a timer handle. Timer handles are
  positive integers, hence truthy, so \<^verbatim>\<open>if (this._pingInterval)\<close> tests for non-null.
  \<open>reconnectDelay\<close> is a JavaScript number; every value it takes is a dyadic rational that a
  double holds exactly (see \<open>reconnectDelay_values\<close>), so it is a \<open>rat\<close>.
\<close>

record agent =
  ws :: "nat option"
  listeners :: "handler list"
  reconnectDelay :: rat
  maxDelay :: rat
  shouldReconnect :: bool
  pingInterval :: "nat option"

text \<open>
  \<open>sockets\<close>: the \<^verbatim>\<open>readyState\<close> of every \<^verbatim>\<open>WebSocket\<close> constructed so far; a socket is its
  index. All sockets carry the same four callbacks, closures over the one agent.
  \<open>timeouts\<close>: pending \<^verbatim>\<open>setTimeout\<close> calls (handle, delay), each of which will call
  \<^verbatim>\<open>_connect\<close>. \<open>intervals\<close>: running \<^verbatim>\<open>setInterval\<close> timers (handle, period).
  \<open>waits\<close>: the delay of every \<^verbatim>\<open>setTimeout\<close> call made so far, in order.
  \<open>sent\<close>: every \<^verbatim>\<open>send\<close> (socket, text). \<open>calls\<close>: every listener invocation.
  \<open>uncaught\<close>: the number of exceptions that escaped a callback.
\<close>

record world = agent +
  sockets :: "readyState list"
  timeouts :: "(nat \<times> rat) list"
  intervals :: "(nat \<times> rat) list"
  next_timer :: nat
  waits :: "rat list"
  sent :: "(nat \<times> string) list"
  calls :: "(handler \<times> json) list"
  uncaught :: nat

definition constructor :: world where
  "constructor =
     \<lparr>ws = None, listeners = [], reconnectDelay = 2000, maxDelay = 30000,
      shouldReconnect = False, pingInterval = None,
      sockets = [], timeouts = [], intervals = [], next_timer = 1,
      waits = [], sent = [], calls = [], uncaught = 0\<rparr>"

subsection \<open>Methods and callbacks\<close>

text \<open>
  \<^verbatim>\<open>WebSocket.close()\<close> of the platform: it starts the closing of a socket that is connecting or
  open, and does nothing to one that is closing or closed.
\<close>

definition ws_close :: "nat \<Rightarrow> world \<Rightarrow> world" where
  "ws_close k w =
     (if k < length (sockets w) \<and> (sockets w ! k = CONNECTING \<or> sockets w ! k = OPEN)
      then w\<lparr>sockets := (sockets w)[k := CLOSING]\<rparr>
      else w)"

text \<open>\<^verbatim>\<open>_stopPing\<close>.\<close>

definition stopPing :: "world \<Rightarrow> world" where
  "stopPing w =
     (case pingInterval w of
        None \<Rightarrow> w
      | Some i \<Rightarrow> w\<lparr>pingInterval := None,
                     intervals := filter (\<lambda>p. fst p \<noteq> i) (intervals w)\<rparr>)"

text \<open>\<^verbatim>\<open>_startPing\<close>: the new timer's handle overwrites \<^verbatim>\<open>_pingInterval\<close>.\<close>

definition startPing :: "world \<Rightarrow> world" where
  "startPing w =
     w\<lparr>pingInterval := Some (next_timer w),
       intervals := intervals w @ [(next_timer w, 25000)],
       next_timer := Suc (next_timer w)\<rparr>"

text \<open>The function given to \<^verbatim>\<open>setInterval\<close>: it reads \<^verbatim>\<open>this.ws\<close> when it runs.\<close>

definition ping_tick :: "world \<Rightarrow> world" where
  "ping_tick w =
     (case ws w of
        None \<Rightarrow> w
      | Some k \<Rightarrow>
          if k < length (sockets w) \<and> sockets w ! k = OPEN
          then w\<lparr>sent := sent w @ [(k, ''ping'')]\<rparr>
          else w)"

text \<open>
  \<^verbatim>\<open>_connect\<close>. \<open>ctor_ok\<close> is whether \<^verbatim>\<open>new WebSocket(url)\<close> returns; when it throws, the
  \<^verbatim>\<open>catch\<close> logs and \<^verbatim>\<open>this.ws\<close> keeps its value.
\<close>

definition connect_internal :: "bool \<Rightarrow> world \<Rightarrow> world" where
  "connect_internal ctor_ok w =
     (if ctor_ok
      then w\<lparr>ws := Some (length (sockets w)), sockets := sockets w @ [CONNECTING]\<rparr>
      else w)"

definition connect :: "handler \<Rightarrow> bool \<Rightarrow> world \<Rightarrow> world" where
  "connect onEvent ctor_ok w =
     connect_internal ctor_ok (w\<lparr>shouldReconnect := True, listeners := [onEvent]\<rparr>)"

definition onopen :: "world \<Rightarrow> world" where
  "onopen w = startPing (w\<lparr>reconnectDelay := 2000\<rparr>)"

text \<open>
  \<^verbatim>\<open>data.type\<close>: \<open>Inl TypeError\<close> when \<open>data\<close> is \<^verbatim>\<open>null\<close>, \<open>Inr None\<close> when the property is
  \<^verbatim>\<open>undefined\<close> (a primitive, an array, an object without the key).
\<close>

fun get_type :: "json \<Rightarrow> exn + json option" where
  "get_type JNull = Inl TypeError"
| "get_type (JObject kvs) = Inr (map_of (rev kvs) ''type'')"
| "get_type _ = Inr None"

text \<open>
  \<^verbatim>\<open>this.listeners.forEach((fn) => fn(data))\<close>: the listeners are called in order; the first
  one that throws ends the loop, and the exception leaves it.
\<close>

fun forEach :: "(handler \<Rightarrow> json \<Rightarrow> bool) \<Rightarrow> handler list \<Rightarrow> json \<Rightarrow> world \<Rightarrow> world \<times> exn option" where
  "forEach throws [] data w = (w, None)"
| "forEach throws (fn # fns) data w =
     (let w1 = w\<lparr>calls := calls w @ [(fn, data)]\<rparr>
      in if throws fn data then (w1, Some HandlerError) else forEach throws fns data w1)"

text \<open>
  The body of the \<^verbatim>\<open>try\<close> in \<^verbatim>\<open>onmessage\<close>. \<open>parsed\<close> is the outcome of
  \<^verbatim>\<open>JSON.parse(e.data)\<close>: \<open>None\<close> when it throws. The result is the world the body leaves and
  the exception it ended with, if any.
\<close>

definition onmessage_try :: "(handler \<Rightarrow> json \<Rightarrow> bool) \<Rightarrow> json option \<Rightarrow> world \<Rightarrow> world \<times> exn option" where
  "onmessage_try throws parsed w =
     (case parsed of
        None \<Rightarrow> (w, Some SyntaxError)
      | Some data \<Rightarrow>
          (case get_type data of
             Inl e \<Rightarrow> (w, Some e)
           | Inr t \<Rightarrow>
               if t = Some (JString ''pong'') then (w, None)
               else forEach throws (listeners w) data w))"

text \<open>\<^verbatim>\<open>onmessage\<close>: \<^verbatim>\<open>catch (_) {}\<close> drops whatever the body threw.\<close>

definition onmessage :: "(handler \<Rightarrow> json \<Rightarrow> bool) \<Rightarrow> json option \<Rightarrow> world \<Rightarrow> world" where
  "onmessage throws parsed w =
     (case onmessage_try throws parsed w of
        (w', None) \<Rightarrow> w'
      | (w', Some _) \<Rightarrow> w')"

definition onclose :: "world \<Rightarrow> world" where
  "onclose w =
     (let w1 = stopPing w
      in if shouldReconnect w1
         then w1\<lparr>reconnectDelay := min (reconnectDelay w1 * (3 / 2)) (maxDelay w1),
                 timeouts := timeouts w1 @ [(next_timer w1, reconnectDelay w1)],
                 next_timer := Suc (next_timer w1),
                 waits := waits w1 @ [reconnectDelay w1]\<rparr>
         else w1)"

text \<open>
  \<^verbatim>\<open>onerror\<close>: \<^verbatim>\<open>this.ws.close()\<close> closes the agent's current socket; when \<^verbatim>\<open>this.ws\<close> is
  \<^verbatim>\<open>null\<close> the call throws out of the callback.
\<close>

definition onerror :: "world \<Rightarrow> world" where
  "onerror w =
     (case ws w of
        None \<Rightarrow> w\<lparr>uncaught := Suc (uncaught w)\<rparr>
      | Some k \<Rightarrow> ws_close k w)"

definition disconnect :: "world \<Rightarrow> world" where
  "disconnect w =
     (let w1 = stopPing (w\<lparr>shouldReconnect := False\<rparr>)
      in case ws w1 of
           None \<Rightarrow> w1
         | Some k \<Rightarrow> (ws_close k w1)\<lparr>ws := None\<rparr>)"

subsection \<open>What can happen to the agent\<close>

text \<open>
  The caller calls \<^verbatim>\<open>connect\<close> and \<^verbatim>\<open>disconnect\<close>; the browser dispatches the events of a
  socket to its callbacks, fires a pending timeout (which runs \<^verbatim>\<open>_connect\<close>) and ticks a
  running interval. \<open>step\<close> is \<open>None\<close> when the event cannot occur in the world: an open event
  needs a connecting socket, a message an open one, a close event a socket whose close event
  has not been dispatched yet, an error event a socket, a timer its handle among the pending
  ones.
\<close>

datatype event =
    Call_connect handler bool
  | Call_disconnect
  | Ev_open nat
  | Ev_message nat "json option"
  | Ev_close nat
  | Ev_error nat
  | Ev_timeout nat bool
  | Ev_tick nat

fun step :: "(handler \<Rightarrow> json \<Rightarrow> bool) \<Rightarrow> event \<Rightarrow> world \<Rightarrow> world option" where
  "step throws (Call_connect h ctor_ok) w = Some (connect h ctor_ok w)"
| "step throws Call_disconnect w = Some (disconnect w)"
| "step throws (Ev_open k) w =
     (if k < length (sockets w) \<and> sockets w ! k = CONNECTING
      then Some (onopen (w\<lparr>sockets := (sockets w)[k := OPEN]\<rparr>))
      else None)"
| "step throws (Ev_message k parsed) w =
     (if k < length (sockets w) \<and> sockets w ! k = OPEN
      then Some (onmessage throws parsed w)
      else None)"
| "step throws (Ev_close k) w =
     (if k < length (sockets w) \<and> sockets w ! k \<noteq> CLOSED
      then Some (onclose (w\<lparr>sockets := (sockets w)[k := CLOSED]\<rparr>))
      else None)"
| "step throws (Ev_error k) w =
     (if k < length (sockets w) then Some (onerror w) else None)"
| "step throws (Ev_timeout t ctor_ok) w =
     (if t \<in> fst ` set (timeouts w)
      then Some (connect_internal ctor_ok (w\<lparr>timeouts := filter (\<lambda>p. fst p \<noteq> t) (timeouts w)\<rparr>))
      else None)"
| "step throws (Ev_tick i) w =
     (if i \<in> fst ` set (intervals w) then Some (ping_tick w) else None)"

fun run :: "(handler \<Rightarrow> json \<Rightarrow> bool) \<Rightarrow> event list \<Rightarrow> world \<Rightarrow> world option" where
  "run throws [] w = Some w"
| "run throws (e # es) w =
     (case step throws e w of None \<Rightarrow> None | Some w' \<Rightarrow> run throws es w')"

subsection \<open>Vocabulary of the properties\<close>

text \<open>
  The open events, after which the backoff starts over.
\<close>

fun is_open :: "event \<Rightarrow> bool" where
  "is_open (Ev_open k) = True"
| "is_open _ = False"

text \<open>
  The calls of \<^verbatim>\<open>connect\<close>, which replace the listener.
\<close>

fun is_connect :: "event \<Rightarrow> bool" where
  "is_connect (Call_connect h ok) = True"
| "is_connect _ = False"

text \<open>
  The messages that reach the listeners: those that parse, are not \<^verbatim>\<open>null\<close> and do not
  have \<^verbatim>\<open>"pong"\<close> as their \<^verbatim>\<open>type\<close>.
\<close>

definition relayed :: "json option \<Rightarrow> bool" where
  "relayed parsed =
     (case parsed of
        None \<Rightarrow> False
      | Some data \<Rightarrow> data \<noteq> JNull \<and> get_type data \<noteq> Inr (Some (JString ''pong'')))"

text \<open>
  2000 and its products with 1.5 below the ceiling, and the ceiling. Each is a multiple of
  1/4 below \<open>2\<^sup>1\<^sup>5\<close>: a double holds it, and its product with 1.5, exactly.
\<close>

definition delay_values :: "rat set" where
  "delay_values = {2000, 3000, 4500, 6750, 10125, 30375 / 2, 91125 / 4, 30000}"

text \<open>
  Listeners that never throw, and listeners that always do.
\<close>

definition no_throw :: "handler \<Rightarrow> json \<Rightarrow> bool" where
  "no_throw fn data = False"

definition always_throws :: "handler \<Rightarrow> json \<Rightarrow> bool" where
  "always_throws fn data = True"

subsection \<open>Example states and messages\<close>

text \<open>
  The agent after \<^verbatim>\<open>connect(h)\<close> (\<open>h\<close> is listener 7) and the open event of its socket.
\<close>

definition connected :: world where
  "connected =
     \<lparr>ws = Some 0, listeners = [7], reconnectDelay = 2000, maxDelay = 30000,
      shouldReconnect = True, pingInterval = Some 1,
      sockets = [OPEN], timeouts = [], intervals = [(1, 25000)], next_timer = 2,
      waits = [], sent = [], calls = [], uncaught = 0\<rparr>"

text \<open>
  The agent after \<^verbatim>\<open>connect(h)\<close>, the close event of its first socket and the firing of the
  reconnection timeout: a second socket is connecting.
\<close>

definition backing_off :: world where
  "backing_off =
     \<lparr>ws = Some 1, listeners = [7], reconnectDelay = 3000, maxDelay = 30000,
      shouldReconnect = True, pingInterval = None,
      sockets = [CLOSED, CONNECTING], timeouts = [], intervals = [], next_timer = 2,
      waits = [2000], sent = [], calls = [], uncaught = 0\<rparr>"

text \<open>
  An activity event and the keepalive acknowledgement, as \<^verbatim>\<open>JSON.parse\<close> returns them.
\<close>

definition signup_message :: json where
  "signup_message =
     JObject [(''type'', JString ''user_signup''), (''email'', JString ''user@example.com'')]"

definition pong_message :: json where
  "pong_message = JObject [(''type'', JString ''pong'')]"

section \<open>Server side: event log store, broadcaster, session manager\<close>

text \<open>
  The server side (\<^verbatim>\<open>websocket/activity_socket.py\<close>: the connection manager and
  \<^verbatim>\<open>broadcast_event\<close>) is not among the sources; only the browser client is. The definitions of
  this section follow sections 3 and 4.1 to 4.3 of the specification.
\<close>

text \<open>
  Modelled from the spec: the closed enumeration of event kinds (section 3); the server source is missing.
\<close>

datatype event_kind =
  user_signup | strategy_generated | strategy_deleted | admin_login | payment_received

text \<open>
  Modelled from the spec: the scalar values of an attribute (section 3); the server source is missing.
\<close>

datatype scalar = SString string | SNumber int | SBool bool

text \<open>
  Modelled from the spec: the Event Record as the producer constructs it, without timestamp
  and sequence number (section 3, section 4.2 step 1); the server source is missing.
\<close>

record event_record =
  kind :: event_kind
  summary :: string
  attributes :: "(string \<times> scalar) list"

text \<open>
  Modelled from the spec: the record as the store returns it, with the sequence number and
  timestamp the store assigns (section 4.1); the server source is missing.
\<close>

record stored_record = event_record +
  seq :: nat
  timestamp :: nat

text \<open>
  Modelled from the spec: \<open>PersistenceError\<close>, the durable append failed (section 7); the
  server source is missing.
\<close>

datatype persistence_error = PersistenceError

text \<open>
  Modelled from the spec: \<open>BroadcastError\<close> with its cause, what a failed publish raises
  (section 4.2 step 2); the server source is missing.
\<close>

datatype broadcast_error = BroadcastError persistence_error

text \<open>
  Modelled from the spec: \<open>AuthRejected\<close>, the credential check at connection time failed
  (section 7); the server source is missing.
\<close>

datatype admission_error = AuthRejected

text \<open>
  Modelled from the spec: the states of a Subscriber Session (section 3); the server source is missing.
\<close>

datatype session_state = S_connecting | S_active | S_closing | S_closed

text \<open>
  Modelled from the spec: the Event Log, the ordered sequence of all records appended, and the
  store's clock (sections 3 and 4.1); the server source is missing.
\<close>

record store =
  records :: "stored_record list"
  clock :: nat

text \<open>
  Modelled from the spec: the server process (sections 4.2 and 4.3); the server source is
  missing. \<open>live\<close> is the live session set in registration order, \<open>sessions\<close> the state of each
  session created, \<open>delivered\<close> what each session's transport has carried, in order,
  \<open>recheck\<close> the sessions handed to the Session Manager after a failed delivery.
\<close>

record hub = store +
  live :: "nat list"
  sessions :: "nat \<Rightarrow> session_state option"
  delivered :: "nat \<Rightarrow> stored_record list"
  next_session :: nat
  recheck :: "nat list"

text \<open>
  Modelled from the spec: the server at process start, with an empty log and no session; the
  server source is missing.
\<close>

definition hub_init :: hub where
  "hub_init =
     \<lparr>records = [], clock = 0, live = [], sessions = (\<lambda>_. None), delivered = (\<lambda>_. []),
      next_session = 0, recheck = []\<rparr>"

text \<open>
  Modelled from the spec: \<^verbatim>\<open>append(record) -> stored_record\<close> of the Event Log Store (section
  4.1); the server source is missing. It fails with \<open>PersistenceError\<close> when the durable backend
  is unreachable (\<open>reachable\<close> is false); otherwise it assigns the next sequence number and the
  time of the store's clock, \<open>elapsed\<close> after the previous append.
\<close>

definition append_record ::
  "bool \<Rightarrow> nat \<Rightarrow> event_record \<Rightarrow> hub \<Rightarrow> persistence_error + stored_record \<times> hub" where
  "append_record reachable elapsed r h =
     (if \<not> reachable then Inl PersistenceError
      else
        let s = \<lparr>kind = kind r, summary = summary r, attributes = attributes r,
                 seq = Suc (length (records h)), timestamp = clock h + elapsed\<rparr>
        in Inr (s, h\<lparr>records := records h @ [s], clock := clock h + elapsed\<rparr>))"

text \<open>
  Modelled from the spec: \<^verbatim>\<open>recent(limit)\<close> of the Event Log Store (section 4.1), up to
  \<open>limit\<close> most recent records in ascending order; the server source is missing.
\<close>

definition recent :: "nat \<Rightarrow> hub \<Rightarrow> stored_record list" where
  "recent limit h = drop (length (records h) - limit) (records h)"

text \<open>
  Modelled from the spec: the fan-out of section 4.2, steps 3 and 4; the server source is
  missing. Delivery to one session is best effort: a failed write (\<open>write_fails\<close>) hands the
  session to the Session Manager and does not touch the delivery to the others.
\<close>

fun deliver_all :: "(nat \<Rightarrow> bool) \<Rightarrow> stored_record \<Rightarrow> nat list \<Rightarrow> hub \<Rightarrow> hub" where
  "deliver_all write_fails s [] h = h"
| "deliver_all write_fails s (i # is) h =
     deliver_all write_fails s is
       (if write_fails i then h\<lparr>recheck := recheck h @ [i]\<rparr>
        else h\<lparr>delivered := (delivered h)(i := delivered h i @ [s])\<rparr>)"

text \<open>
  Modelled from the spec: \<^verbatim>\<open>publish(kind, summary, attributes)\<close> of the Activity Broadcaster
  (section 4.2); the server source is missing. The result is what the producer sees and the
  server it leaves.
\<close>

definition publish ::
  "bool \<Rightarrow> nat \<Rightarrow> (nat \<Rightarrow> bool) \<Rightarrow> event_kind \<Rightarrow> string \<Rightarrow> (string \<times> scalar) list \<Rightarrow> hub
     \<Rightarrow> (broadcast_error + stored_record) \<times> hub" where
  "publish reachable elapsed write_fails k sm attrs h =
     (case append_record reachable elapsed \<lparr>kind = k, summary = sm, attributes = attrs\<rparr> h of
        Inl e \<Rightarrow> (Inl (BroadcastError e), h)
      | Inr (s, h1) \<Rightarrow> (Inr s, deliver_all write_fails s (live h1) h1))"

text \<open>
  Modelled from the spec: \<^verbatim>\<open>onConnect\<close> of the Subscriber Session Manager (section 4.3); the
  server source is missing. After the credential check the session is created in state
  connecting, receives \<open>recent 20\<close> as its replay batch, becomes active and joins the live set.
\<close>

definition onConnect :: "bool \<Rightarrow> hub \<Rightarrow> (admission_error + nat) \<times> hub" where
  "onConnect credential_ok h =
     (if \<not> credential_ok then (Inl AuthRejected, h)
      else
        let i = next_session h;
            h1 = h\<lparr>sessions := (sessions h)(i \<mapsto> S_connecting), next_session := Suc i\<rparr>;
            h2 = h1\<lparr>delivered := (delivered h1)(i := recent 20 h1)\<rparr>
        in (Inr i, h2\<lparr>sessions := (sessions h2)(i \<mapsto> S_active), live := live h2 @ [i]\<rparr>))"

text \<open>
  Modelled from the spec: \<^verbatim>\<open>onDisconnect\<close> of the Subscriber Session Manager (section 4.3);
  the server source is missing. Disconnecting a session that is not live is a no-op.
\<close>

definition onDisconnect :: "nat \<Rightarrow> hub \<Rightarrow> hub" where
  "onDisconnect i h =
     (if i \<in> set (live h)
      then h\<lparr>sessions := (sessions h)(i \<mapsto> S_closed), live := removeAll i (live h)\<rparr>
      else h)"

text \<open>
  What producers and administrators do to the server, one call at a time.
\<close>

datatype hub_op =
    Publish bool nat "nat \<Rightarrow> bool" event_kind string "(string \<times> scalar) list"
  | Connect bool
  | Disconnect nat

fun hub_step :: "hub_op \<Rightarrow> hub \<Rightarrow> hub" where
  "hub_step (Publish reachable elapsed write_fails k sm attrs) h =
     snd (publish reachable elapsed write_fails k sm attrs h)"
| "hub_step (Connect credential_ok) h = snd (onConnect credential_ok h)"
| "hub_step (Disconnect i) h = onDisconnect i h"

fun hub_run :: "hub_op list \<Rightarrow> hub \<Rightarrow> hub" where
  "hub_run [] h = h"
| "hub_run (op # ops) h = hub_run ops (hub_step op h)"

text \<open>
  The events of the publish calls that succeed, in call order.
\<close>

fun published :: "hub_op list \<Rightarrow> event_record list" where
  "published [] = []"
| "published (Publish reachable elapsed write_fails k sm attrs # ops) =
     (if reachable then \<lparr>kind = k, summary = sm, attributes = attrs\<rparr> # published ops
      else published ops)"
| "published (_ # ops) = published ops"

text \<open>
  The producer's part of a stored record.
\<close>

definition event_of :: "stored_record \<Rightarrow> event_record" where
  "event_of s = \<lparr>kind = kind s, summary = summary s, attributes = attributes s\<rparr>"

text \<open>
  The replay batch that a session connecting now, with valid credentials, receives.
\<close>

definition replay :: "hub \<Rightarrow> stored_record list" where
  "replay h = delivered (snd (onConnect True h)) (next_session h)"

text \<open>
  What holds of the server after every sequence of calls: the live set has no duplicates and
  holds only sessions that were created; the log carries the sequence numbers 1, 2, ... in
  order; and what a session has received is in strictly ascending sequence order and comes
  from the log.
\<close>

definition hub_inv :: "hub \<Rightarrow> bool" where
  "hub_inv h \<longleftrightarrow>
     distinct (live h) \<and> (\<forall>i\<in>set (live h). i < next_session h) \<and>
     map seq (records h) = [1 ..< Suc (length (records h))] \<and>
     (\<forall>i. sorted_wrt (<) (map seq (delivered h i)) \<and>
          (\<forall>r\<in>set (delivered h i). seq r \<le> length (records h)))"

subsection \<open>Example runs of the server\<close>

text \<open>
  Twenty-five events published in order, numbered 1 to 25 in their attributes.
\<close>

definition login_events :: "hub_op list" where
  "login_events =
     map (\<lambda>i. Publish True 1 (\<lambda>_. False) admin_login ''Admin login''
                [(''n'', SNumber (int i))]) [1 ..< 26]"

text \<open>
  A server with one active session, and one with two.
\<close>

definition one_session :: hub where
  "one_session = snd (onConnect True hub_init)"

definition two_sessions :: "hub_op list" where
  "two_sessions = [Connect True, Connect True]"

text \<open>
  Socket writes that all succeed, that all fail, and that fail for session 1 only.
\<close>

definition write_ok :: "nat \<Rightarrow> bool" where
  "write_ok i = False"

definition always_fails :: "nat \<Rightarrow> bool" where
  "always_fails i = True"

definition second_write_fails :: "nat \<Rightarrow> bool" where
  "second_write_fails i = (i = 1)"

section \<open>Properties of the agent\<close>

subsection \<open>Elementary facts about the methods\<close>

lemma stopPing_idem: "stopPing (stopPing w) = stopPing w"
  by (simp add: stopPing_def split: option.splits)

lemma stopPing_fields:
  "ws (stopPing w) = ws w" "listeners (stopPing w) = listeners w"
  "reconnectDelay (stopPing w) = reconnectDelay w" "maxDelay (stopPing w) = maxDelay w"
  "shouldReconnect (stopPing w) = shouldReconnect w" "pingInterval (stopPing w) = None"
  "sockets (stopPing w) = sockets w" "timeouts (stopPing w) = timeouts w"
  "next_timer (stopPing w) = next_timer w" "waits (stopPing w) = waits w"
  "sent (stopPing w) = sent w" "calls (stopPing w) = calls w"
  "uncaught (stopPing w) = uncaught w"
  by (simp_all add: stopPing_def split: option.splits)

lemma ws_close_fields:
  "ws (ws_close k w) = ws w" "listeners (ws_close k w) = listeners w"
  "reconnectDelay (ws_close k w) = reconnectDelay w" "maxDelay (ws_close k w) = maxDelay w"
  "shouldReconnect (ws_close k w) = shouldReconnect w"
  "pingInterval (ws_close k w) = pingInterval w"
  "timeouts (ws_close k w) = timeouts w" "intervals (ws_close k w) = intervals w"
  "next_timer (ws_close k w) = next_timer w" "waits (ws_close k w) = waits w"
  "sent (ws_close k w) = sent w" "calls (ws_close k w) = calls w"
  "uncaught (ws_close k w) = uncaught w"
  "length (sockets (ws_close k w)) = length (sockets w)"
  by (simp_all add: ws_close_def)

lemmas agent_defs = constructor_def connect_def connect_internal_def onopen_def onclose_def
  onerror_def disconnect_def startPing_def stopPing_def ping_tick_def ws_close_def
  onmessage_def onmessage_try_def Let_def

lemma forEach_calls:
  "\<exists>cs. fst (forEach throws fns d w) = w\<lparr>calls := calls w @ cs\<rparr>"
proof (induction fns arbitrary: w)
  case Nil
  show ?case by (rule exI [of _ "[]"]) simp
next
  case (Cons fn fns)
  show ?case
  proof (cases "throws fn d")
    case True
    then show ?thesis by (auto simp: Let_def)
  next
    case False
    from Cons [of "w\<lparr>calls := calls w @ [(fn, d)]\<rparr>"]
    obtain cs where "fst (forEach throws fns d (w\<lparr>calls := calls w @ [(fn, d)]\<rparr>))
        = w\<lparr>calls := calls w @ [(fn, d)] @ cs\<rparr>" by auto
    with False show ?thesis by (auto simp: Let_def)
  qed
qed

lemma onmessage_calls:
  "\<exists>cs. onmessage throws p w = w\<lparr>calls := calls w @ cs\<rparr>"
proof -
  have triv: "w = w\<lparr>calls := calls w @ []\<rparr>" by simp
  obtain cs where cs: "fst (forEach throws (listeners w) (the p) w) = w\<lparr>calls := calls w @ cs\<rparr>"
    using forEach_calls by blast
  have "onmessage throws p w = fst (onmessage_try throws p w)"
    by (simp add: onmessage_def split: prod.splits option.splits)
  moreover have "fst (onmessage_try throws p w) = w \<or> fst (onmessage_try throws p w) = fst (forEach throws (listeners w) (the p) w)"
    by (simp add: onmessage_try_def split: option.splits sum.splits)
  ultimately show ?thesis using cs triv by metis
qed

lemma onmessage_fields:
  "ws (onmessage throws p w) = ws w" "listeners (onmessage throws p w) = listeners w"
  "reconnectDelay (onmessage throws p w) = reconnectDelay w"
  "maxDelay (onmessage throws p w) = maxDelay w"
  "shouldReconnect (onmessage throws p w) = shouldReconnect w"
  "pingInterval (onmessage throws p w) = pingInterval w"
  "sockets (onmessage throws p w) = sockets w" "timeouts (onmessage throws p w) = timeouts w"
  "intervals (onmessage throws p w) = intervals w"
  "next_timer (onmessage throws p w) = next_timer w" "waits (onmessage throws p w) = waits w"
  "sent (onmessage throws p w) = sent w" "uncaught (onmessage throws p w) = uncaught w"
proof -
  obtain cs where "onmessage throws p w = w\<lparr>calls := calls w @ cs\<rparr>"
    using onmessage_calls by blast
  then show "ws (onmessage throws p w) = ws w" "listeners (onmessage throws p w) = listeners w"
  "reconnectDelay (onmessage throws p w) = reconnectDelay w"
  "maxDelay (onmessage throws p w) = maxDelay w"
  "shouldReconnect (onmessage throws p w) = shouldReconnect w"
  "pingInterval (onmessage throws p w) = pingInterval w"
  "sockets (onmessage throws p w) = sockets w" "timeouts (onmessage throws p w) = timeouts w"
  "intervals (onmessage throws p w) = intervals w"
  "next_timer (onmessage throws p w) = next_timer w" "waits (onmessage throws p w) = waits w"
  "sent (onmessage throws p w) = sent w" "uncaught (onmessage throws p w) = uncaught w"
    by simp_all
qed

lemma get_type_Inl: "get_type d = Inl e \<longleftrightarrow> d = JNull \<and> e = TypeError"
  by (cases d) auto

lemma onmessage_single:
  assumes "listeners w = [h]"
  shows "onmessage throws p w = (if relayed p then w\<lparr>calls := calls w @ [(h, the p)]\<rparr> else w)"
  using assms
  by (auto simp: onmessage_def onmessage_try_def relayed_def Let_def get_type_Inl
      split: option.splits sum.splits)

lemma run_connected: "run throws [Call_connect 7 True, Ev_open 0] constructor = Some connected"
  by (simp add: agent_defs connected_def)

lemma run_backing_off:
  "run throws [Call_connect 7 True, Ev_close 0, Ev_timeout 1 True] constructor = Some backing_off"
  by (simp add: agent_defs backing_off_def)

subsection \<open>Explicit disconnect\<close>

text \<open>
  C10. \<^verbatim>\<open>disconnect()\<close> is idempotent: the call never fails; a second call changes nothing
  that the first one left; and on an agent that is already disconnected (no reconnect intent,
  no socket, no ping timer) it changes nothing at all.
\<close>

theorem disconnect_idempotent:
  "step throws Call_disconnect w = Some (disconnect w)
   \<and> disconnect (disconnect w) = disconnect w
   \<and> (\<not> shouldReconnect w \<and> ws w = None \<and> pingInterval w = None \<longrightarrow> disconnect w = w)"
  by (auto simp add: disconnect_def stopPing_def ws_close_def Let_def split: option.splits)

theorem disconnect_idempotent_witness:
  "\<not> shouldReconnect constructor \<and> ws constructor = None \<and> pingInterval constructor = None
   \<and> disconnect constructor = constructor"
  using disconnect_idempotent [of no_throw constructor]
  by (simp add: constructor_def)

text \<open>
  C4. After \<^verbatim>\<open>disconnect()\<close> no further connection attempt should occur. The code clears
  \<^verbatim>\<open>shouldReconnect\<close>, but the function that \<^verbatim>\<open>onclose\<close> has already handed to
  \<^verbatim>\<open>setTimeout\<close> calls \<^verbatim>\<open>_connect\<close> without reading the flag, and \<^verbatim>\<open>disconnect\<close> does not
  cancel it. The run below: \<^verbatim>\<open>connect(h)\<close>; the socket closes, so a reconnection is scheduled
  after 2000 ms; \<^verbatim>\<open>disconnect()\<close> during that wait; the timeout fires. A second socket is
  constructed and becomes the agent's current one although the reconnect intent is cleared;
  it then opens, a keepalive timer is started, and its tick sends a ping.
\<close>

theorem disconnect_during_backoff_reconnects:
  "run no_throw
     [Call_connect 7 True, Ev_close 0, Call_disconnect, Ev_timeout 1 True] constructor
   = Some \<lparr>ws = Some 1, listeners = [7], reconnectDelay = 3000, maxDelay = 30000,
            shouldReconnect = False, pingInterval = None,
            sockets = [CLOSED, CONNECTING], timeouts = [], intervals = [], next_timer = 2,
            waits = [2000], sent = [], calls = [], uncaught = 0\<rparr>
   \<and> run no_throw
     [Call_connect 7 True, Ev_close 0, Call_disconnect, Ev_timeout 1 True, Ev_open 1, Ev_tick 2]
     constructor
   = Some \<lparr>ws = Some 1, listeners = [7], reconnectDelay = 2000, maxDelay = 30000,
            shouldReconnect = False, pingInterval = Some 2,
            sockets = [CLOSED, OPEN], timeouts = [], intervals = [(2, 25000)], next_timer = 3,
            waits = [2000], sent = [(1, ''ping'')], calls = [], uncaught = 0\<rparr>"
  by (simp add: constructor_def connect_def connect_internal_def onclose_def onopen_def
      startPing_def ping_tick_def stopPing_def disconnect_def ws_close_def Let_def)

subsection \<open>Backoff\<close>

lemma step_delay:
  assumes "step throws e w = Some w'" "\<not> is_open e"
  shows "maxDelay w' = maxDelay w \<and>
    ((waits w' = waits w \<and> reconnectDelay w' = reconnectDelay w) \<or>
     (waits w' = waits w @ [reconnectDelay w] \<and>
      reconnectDelay w' = min (reconnectDelay w * (3 / 2)) (maxDelay w)))"
proof (cases e)
  case (Ev_message k p)
  with assms show ?thesis by (auto simp: onmessage_fields split: if_splits)
next
  case (Ev_close k)
  with assms show ?thesis
    by (auto simp: onclose_def Let_def stopPing_fields split: if_splits)
next
  case (Ev_open k)
  with assms show ?thesis by simp
qed (use assms in \<open>auto simp: connect_def connect_internal_def disconnect_def Let_def
       stopPing_fields ws_close_fields onerror_def ping_tick_def split: if_splits option.splits\<close>)

lemma waits_sorted:
  assumes "run throws es w = Some w'" "\<forall>e\<in>set es. \<not> is_open e"
    "0 \<le> reconnectDelay w" "reconnectDelay w \<le> maxDelay w"
  shows "\<exists>ds. waits w' = waits w @ ds \<and> sorted ds \<and>
     (\<forall>d\<in>set ds. reconnectDelay w \<le> d \<and> d \<le> reconnectDelay w') \<and>
     reconnectDelay w \<le> reconnectDelay w' \<and> reconnectDelay w' \<le> maxDelay w"
  using assms
proof (induction es arbitrary: w)
  case Nil
  then show ?case by simp
next
  case (Cons e es)
  from Cons.prems obtain w1 where s: "step throws e w = Some w1" and r: "run throws es w1 = Some w'"
    by (auto split: option.splits)
  from Cons.prems have ne: "\<not> is_open e" and nes: "\<forall>e\<in>set es. \<not> is_open e" by auto
  from step_delay [OF s ne] have m: "maxDelay w1 = maxDelay w"
    and d: "(waits w1 = waits w \<and> reconnectDelay w1 = reconnectDelay w) \<or>
     (waits w1 = waits w @ [reconnectDelay w] \<and>
      reconnectDelay w1 = min (reconnectDelay w * (3 / 2)) (maxDelay w))" by auto
  from d Cons.prems(3,4) have mono: "reconnectDelay w \<le> reconnectDelay w1" by auto
  from d Cons.prems(3,4) m have b: "0 \<le> reconnectDelay w1" "reconnectDelay w1 \<le> maxDelay w1" by auto
  from Cons.IH [OF r nes b] obtain ds where ds: "waits w' = waits w1 @ ds" "sorted ds"
     "\<forall>d\<in>set ds. reconnectDelay w1 \<le> d \<and> d \<le> reconnectDelay w'"
     "reconnectDelay w1 \<le> reconnectDelay w'" "reconnectDelay w' \<le> maxDelay w1" by auto
  from d show ?case
  proof
    assume "waits w1 = waits w \<and> reconnectDelay w1 = reconnectDelay w"
    with ds m show ?thesis by auto
  next
    assume a: "waits w1 = waits w @ [reconnectDelay w] \<and>
      reconnectDelay w1 = min (reconnectDelay w * (3 / 2)) (maxDelay w)"
    have "waits w' = waits w @ (reconnectDelay w # ds)" using a ds by simp
    moreover have "sorted (reconnectDelay w # ds)" using ds mono by fastforce
    moreover have "\<forall>d\<in>set (reconnectDelay w # ds). reconnectDelay w \<le> d \<and> d \<le> reconnectDelay w'"
      using ds mono by fastforce
    ultimately show ?thesis using ds m mono by (metis order_trans)
  qed
qed

lemma step_values:
  assumes "step throws e w = Some w'" "reconnectDelay w \<in> delay_values" "maxDelay w = 30000"
  shows "reconnectDelay w' \<in> delay_values \<and> maxDelay w' = 30000"
proof (cases "is_open e")
  case True
  then obtain k where "e = Ev_open k" by (cases e) auto
  with assms show ?thesis
    by (auto simp: onopen_def startPing_def delay_values_def split: if_splits)
next
  case False
  from step_delay [OF assms(1) False] assms(2,3) show ?thesis
    by (auto simp: delay_values_def)
qed

lemma run_values:
  assumes "run throws es w = Some w'" "reconnectDelay w \<in> delay_values" "maxDelay w = 30000"
  shows "reconnectDelay w' \<in> delay_values \<and> maxDelay w' = 30000"
  using assms
proof (induction es arbitrary: w)
  case Nil
  then show ?case by simp
next
  case (Cons e es)
  then show ?case by (auto split: option.splits dest: step_values)
qed

lemma reconnectDelay_values:
  "run throws es constructor = Some w \<Longrightarrow> reconnectDelay w \<in> delay_values"
  using run_values [of throws es constructor w] by (simp add: constructor_def delay_values_def)

text \<open>
  C5. In every state the agent reaches, the delay is between the floor 2000 and the ceiling
  30000. An open event resets it to 2000. A close event with the reconnect intent set
  schedules the wait with the delay as it is, and only then multiplies the delay by 1.5 and
  caps it at the ceiling, so the delay does not decrease, and grows while it is below the
  ceiling. Hence the waits scheduled during any run without an open event are in
  non-decreasing order, each at most 30000.
\<close>

theorem backoff_delay:
  assumes "run throws es constructor = Some w"
  shows "reconnectDelay w \<in> delay_values \<and> 2000 \<le> reconnectDelay w
     \<and> reconnectDelay w \<le> 30000 \<and> maxDelay w = 30000
   \<and> (step throws (Ev_open k) w = Some w1 \<longrightarrow> reconnectDelay w1 = 2000)
   \<and> (step throws (Ev_close j) w = Some w2 \<and> shouldReconnect w \<longrightarrow>
        waits w2 = waits w @ [reconnectDelay w] \<and>
        timeouts w2 = timeouts w @ [(next_timer w, reconnectDelay w)] \<and>
        reconnectDelay w2 = min (reconnectDelay w * (3 / 2)) 30000 \<and>
        reconnectDelay w \<le> reconnectDelay w2 \<and>
        (reconnectDelay w < 30000 \<longrightarrow> reconnectDelay w < reconnectDelay w2))
   \<and> (run throws es' w = Some w3 \<and> (\<forall>e\<in>set es'. \<not> is_open e) \<longrightarrow>
        (\<exists>ds. waits w3 = waits w @ ds \<and> sorted ds \<and>
              (\<forall>d\<in>set ds. reconnectDelay w \<le> d \<and> d \<le> 30000)))"
proof -
  have v: "reconnectDelay w \<in> delay_values" and m: "maxDelay w = 30000"
    using run_values [OF assms] by (simp_all add: constructor_def delay_values_def)
  from v have b: "2000 \<le> reconnectDelay w" "reconnectDelay w \<le> 30000"
    by (auto simp: delay_values_def)
  have o: "step throws (Ev_open k) w = Some w1 \<longrightarrow> reconnectDelay w1 = 2000"
    by (auto simp: onopen_def startPing_def split: if_splits)
  have c: "step throws (Ev_close j) w = Some w2 \<and> shouldReconnect w \<longrightarrow>
        waits w2 = waits w @ [reconnectDelay w] \<and>
        timeouts w2 = timeouts w @ [(next_timer w, reconnectDelay w)] \<and>
        reconnectDelay w2 = min (reconnectDelay w * (3 / 2)) 30000 \<and>
        reconnectDelay w \<le> reconnectDelay w2 \<and>
        (reconnectDelay w < 30000 \<longrightarrow> reconnectDelay w < reconnectDelay w2)"
    using b m by (auto simp: onclose_def Let_def stopPing_fields split: if_splits)
  have t: "run throws es' w = Some w3 \<and> (\<forall>e\<in>set es'. \<not> is_open e) \<longrightarrow>
        (\<exists>ds. waits w3 = waits w @ ds \<and> sorted ds \<and>
              (\<forall>d\<in>set ds. reconnectDelay w \<le> d \<and> d \<le> 30000))"
  proof
    assume a: "run throws es' w = Some w3 \<and> (\<forall>e\<in>set es'. \<not> is_open e)"
    have "0 \<le> reconnectDelay w" "reconnectDelay w \<le> maxDelay w" using b m by simp_all
    from waits_sorted [OF conjunct1 [OF a] conjunct2 [OF a] this]
    obtain ds where "waits w3 = waits w @ ds" "sorted ds"
      "\<forall>d\<in>set ds. reconnectDelay w \<le> d \<and> d \<le> reconnectDelay w3"
      "reconnectDelay w3 \<le> maxDelay w" by blast
    with m show "\<exists>ds. waits w3 = waits w @ ds \<and> sorted ds \<and>
              (\<forall>d\<in>set ds. reconnectDelay w \<le> d \<and> d \<le> 30000)"
      by (intro exI [of _ ds]) auto
  qed
  from v b m o c t show ?thesis by blast
qed

theorem backoff_delay_witness:
  "run no_throw [Call_connect 7 True, Ev_close 0, Ev_timeout 1 True] constructor = Some backing_off
   \<and> reconnectDelay backing_off = 3000
   \<and> reconnectDelay (onopen (backing_off\<lparr>sockets := [CLOSED, OPEN]\<rparr>)) = 2000
   \<and> waits (onclose (backing_off\<lparr>sockets := [CLOSED, CLOSED]\<rparr>)) = [2000, 3000]
   \<and> reconnectDelay (onclose (backing_off\<lparr>sockets := [CLOSED, CLOSED]\<rparr>)) = 4500"
proof -
  have o: "step no_throw (Ev_open 1) backing_off
      = Some (onopen (backing_off\<lparr>sockets := [CLOSED, OPEN]\<rparr>))"
    by (simp add: backing_off_def)
  have c: "step no_throw (Ev_close 1) backing_off
      = Some (onclose (backing_off\<lparr>sockets := [CLOSED, CLOSED]\<rparr>))"
    by (simp add: backing_off_def)
  have s: "shouldReconnect backing_off" "reconnectDelay backing_off = 3000"
    "waits backing_off = [2000]"
    by (simp_all add: backing_off_def)
  from backoff_delay [OF run_backing_off, where k = 1 and j = 1 and es' = "[]"
      and ?w1.0 = "onopen (backing_off\<lparr>sockets := [CLOSED, OPEN]\<rparr>)"
      and ?w2.0 = "onclose (backing_off\<lparr>sockets := [CLOSED, CLOSED]\<rparr>)"
      and ?w3.0 = backing_off and throws = no_throw] o c s
  have "reconnectDelay (onopen (backing_off\<lparr>sockets := [CLOSED, OPEN]\<rparr>)) = 2000
   \<and> waits (onclose (backing_off\<lparr>sockets := [CLOSED, CLOSED]\<rparr>)) = [2000, 3000]
   \<and> reconnectDelay (onclose (backing_off\<lparr>sockets := [CLOSED, CLOSED]\<rparr>)) = 4500"
    by simp
  with run_backing_off [of no_throw] s(2) show ?thesis by simp
qed

subsection \<open>Inbound messages\<close>

lemma run_messages:
  assumes "listeners w = [h]" "k < length (sockets w)" "sockets w ! k = OPEN"
  shows "run throws (map (Ev_message k) ps) w
     = Some (w\<lparr>calls := calls w @ map (\<lambda>p. (h, the p)) (filter relayed ps)\<rparr>)"
  using assms
proof (induction ps arbitrary: w)
  case Nil
  then show ?case by simp
next
  case (Cons p ps)
  let ?w1 = "onmessage throws p w"
  have w1: "?w1 = (if relayed p then w\<lparr>calls := calls w @ [(h, the p)]\<rparr> else w)"
    using Cons.prems(1) by (rule onmessage_single)
  have "listeners ?w1 = [h]" "k < length (sockets ?w1)" "sockets ?w1 ! k = OPEN"
    using Cons.prems by (simp_all add: onmessage_fields)
  from Cons.IH [OF this] Cons.prems show ?case
    by (simp add: w1)
qed

lemma onmessage_nothrow:
  assumes "length (listeners w) \<le> 1"
  shows "onmessage throws p w = onmessage (\<lambda>_ _. False) p w"
proof (cases "listeners w")
  case Nil
  then show ?thesis
    by (simp add: onmessage_def onmessage_try_def split: option.splits sum.splits)
next
  case (Cons h hs)
  with assms have "listeners w = [h]" by simp
  then show ?thesis by (simp add: onmessage_single)
qed

lemma step_listeners:
  assumes "step throws e w = Some w'"
  shows "(\<exists>h ok. e = Call_connect h ok \<and> listeners w' = [h]) \<or> (\<not> is_connect e \<and> listeners w' = listeners w)"
proof (cases e)
  case (Ev_message k p)
  with assms show ?thesis by (auto simp: onmessage_fields split: if_splits)
qed (use assms in \<open>auto simp: connect_def connect_internal_def disconnect_def Let_def onopen_def startPing_def onclose_def
       stopPing_fields ws_close_fields onerror_def ping_tick_def split: if_splits option.splits\<close>)

lemma run_listeners_le1:
  assumes "run throws es w = Some w'" "length (listeners w) \<le> 1"
  shows "length (listeners w') \<le> 1"
  using assms
proof (induction es arbitrary: w)
  case Nil
  then show ?case by simp
next
  case (Cons e es)
  from Cons.prems obtain w1 where s: "step throws e w = Some w1" and r: "run throws es w1 = Some w'"
    by (auto split: option.splits)
  from step_listeners [OF s] Cons.prems(2) have "length (listeners w1) \<le> 1" by auto
  from Cons.IH [OF r this] show ?case .
qed

lemma step_calls:
  assumes "step throws e w = Some w'" "listeners w = [h]"
  shows "\<exists>cs. calls w' = calls w @ cs \<and> (\<forall>c\<in>set cs. fst c = h)"
proof (cases e)
  case (Ev_message k p)
  with assms have "w' = onmessage throws p w" by (auto split: if_splits)
  with onmessage_single [OF assms(2), of throws p] show ?thesis by auto
qed (use assms in \<open>auto simp: connect_def connect_internal_def disconnect_def Let_def onopen_def startPing_def onclose_def
       stopPing_fields ws_close_fields onerror_def ping_tick_def split: if_splits option.splits\<close>)

lemma run_calls:
  assumes "run throws es w = Some w'" "listeners w = [h]" "\<forall>e\<in>set es. \<not> is_connect e"
  shows "listeners w' = [h] \<and> (\<exists>cs. calls w' = calls w @ cs \<and> (\<forall>c\<in>set cs. fst c = h))"
  using assms
proof (induction es arbitrary: w)
  case Nil
  then show ?case by simp
next
  case (Cons e es)
  from Cons.prems obtain w1 where s: "step throws e w = Some w1" and r: "run throws es w1 = Some w'"
    by (auto split: option.splits)
  from Cons.prems have ne: "\<not> is_connect e" and nes: "\<forall>e\<in>set es. \<not> is_connect e" by auto
  from step_listeners [OF s] ne Cons.prems(2) have l1: "listeners w1 = [h]" by auto
  from step_calls [OF s Cons.prems(2)] obtain cs where cs: "calls w1 = calls w @ cs" "\<forall>c\<in>set cs. fst c = h"
    by auto
  from Cons.IH [OF r l1 nes] obtain cs' where cs': "listeners w' = [h]" "calls w' = calls w1 @ cs'" "\<forall>c\<in>set cs'. fst c = h"
    by auto
  have "calls w' = calls w @ (cs @ cs')" using cs cs' by simp
  moreover have "\<forall>c\<in>set (cs @ cs'). fst c = h" using cs cs' by auto
  ultimately show ?case using cs'(1) by blast
qed

text \<open>
  C6, as the claim states it, fails: the message text \<^verbatim>\<open>null\<close> is well-formed JSON and not a
  pong, yet it is not forwarded. \<^verbatim>\<open>JSON.parse\<close> returns \<^verbatim>\<open>null\<close>, reading \<^verbatim>\<open>data.type\<close> throws
  a TypeError, and the \<^verbatim>\<open>catch\<close> drops it: after the message the listener has not been
  called.
\<close>

theorem null_message_not_forwarded:
  "run no_throw [Call_connect 7 True, Ev_open 0, Ev_message 0 (Some JNull)] constructor
     = Some connected
   \<and> calls connected = [] \<and> listeners connected = [7]
   \<and> get_type JNull \<noteq> Inr (Some (JString ''pong''))"
  by (simp add: agent_defs connected_def)

text \<open>
  C6, amended. For an agent with listener \<open>h\<close> and an open socket: a message whose
  \<^verbatim>\<open>type\<close> is \<^verbatim>\<open>"pong"\<close> changes nothing; a message that does not parse changes nothing; the
  message \<^verbatim>\<open>null\<close> changes nothing; every other message is passed to \<open>h\<close> and changes
  nothing else. For any sequence of messages, \<open>h\<close> receives exactly the relayed ones, in
  arrival order, and the connection stays as it is.
\<close>

theorem inbound_messages:
  assumes "listeners w = [h]" "k < length (sockets w)" "sockets w ! k = OPEN"
  shows "(get_type data = Inr (Some (JString ''pong'')) \<longrightarrow>
            step throws (Ev_message k (Some data)) w = Some w)
   \<and> step throws (Ev_message k None) w = Some w
   \<and> step throws (Ev_message k (Some JNull)) w = Some w
   \<and> (data \<noteq> JNull \<and> get_type data \<noteq> Inr (Some (JString ''pong'')) \<longrightarrow>
        step throws (Ev_message k (Some data)) w = Some (w\<lparr>calls := calls w @ [(h, data)]\<rparr>))
   \<and> run throws (map (Ev_message k) ps) w
       = Some (w\<lparr>calls := calls w @ map (\<lambda>p. (h, the p)) (filter relayed ps)\<rparr>)"
  using assms run_messages [OF assms, of throws ps]
  by (simp add: onmessage_single relayed_def)

theorem inbound_messages_witness:
  "run no_throw (map (Ev_message 0)
       [Some signup_message, Some pong_message, None, Some JNull, Some (JString ''hello'')])
     connected
   = Some (connected\<lparr>calls := [(7, signup_message), (7, JString ''hello'')]\<rparr>)
   \<and> step no_throw (Ev_message 0 (Some pong_message)) connected = Some connected
   \<and> step no_throw (Ev_message 0 (Some signup_message)) connected
       = Some (connected\<lparr>calls := [(7, signup_message)]\<rparr>)"
proof -
  have a: "listeners connected = [7]" "0 < length (sockets connected)"
    "sockets connected ! 0 = OPEN" "calls connected = []"
    by (simp_all add: connected_def)
  have g: "get_type pong_message = Inr (Some (JString ''pong''))"
    "get_type signup_message \<noteq> Inr (Some (JString ''pong''))" "signup_message \<noteq> JNull"
    by (simp_all add: pong_message_def signup_message_def)
  from inbound_messages [OF a(1-3), of pong_message no_throw
      "[Some signup_message, Some pong_message, None, Some JNull, Some (JString ''hello'')]"]
    inbound_messages [OF a(1-3), of signup_message no_throw "[]"] g a(4)
  show ?thesis by (simp add: relayed_def)
qed

subsection \<open>The listener\<close>

text \<open>
  C8. \<^verbatim>\<open>connect(h)\<close> always succeeds and makes \<open>[h]\<close> the listener list; in every state the
  agent reaches there is at most one listener; and in any run after \<^verbatim>\<open>connect(h)\<close> without a
  further \<^verbatim>\<open>connect\<close>, the listener list stays \<open>[h]\<close> and every listener invocation is one of
  \<open>h\<close>, on whichever socket the message arrives.
\<close>

theorem connect_single_listener:
  "step throws (Call_connect h ok) w = Some (connect h ok w)
   \<and> listeners (connect h ok w) = [h]
   \<and> (run throws es constructor = Some w1 \<longrightarrow> length (listeners w1) \<le> 1)
   \<and> (run throws es' (connect h ok w) = Some w2 \<and> (\<forall>e\<in>set es'. \<not> is_connect e) \<longrightarrow>
        listeners w2 = [h] \<and>
        (\<exists>cs. calls w2 = calls w @ cs \<and> (\<forall>c\<in>set cs. fst c = h)))"
proof -
  have l: "listeners (connect h ok w) = [h]" and c: "calls (connect h ok w) = calls w"
    by (simp_all add: connect_def connect_internal_def)
  have r: "run throws es constructor = Some w1 \<longrightarrow> length (listeners w1) \<le> 1"
    using run_listeners_le1 [of throws es constructor w1] by (simp add: constructor_def)
  have t: "run throws es' (connect h ok w) = Some w2 \<and> (\<forall>e\<in>set es'. \<not> is_connect e) \<longrightarrow>
        listeners w2 = [h] \<and> (\<exists>cs. calls w2 = calls w @ cs \<and> (\<forall>c\<in>set cs. fst c = h))"
    using run_calls [of throws es' "connect h ok w" w2 h] l c by simp
  from l r t show ?thesis by simp
qed

theorem connect_single_listener_witness:
  "listeners connected = [7]
   \<and> listeners (connect 9 True connected) = [9]
   \<and> run no_throw [Ev_message 0 (Some signup_message), Ev_open 1,
                    Ev_message 1 (Some (JString ''hello''))] (connect 9 True connected)
     = Some \<lparr>ws = Some 1, listeners = [9], reconnectDelay = 2000, maxDelay = 30000,
             shouldReconnect = True, pingInterval = Some 2,
             sockets = [OPEN, OPEN], timeouts = [], intervals = [(1, 25000), (2, 25000)],
             next_timer = 3, waits = [], sent = [],
             calls = [(9, signup_message), (9, JString ''hello'')], uncaught = 0\<rparr>"
proof -
  let ?es = "[Ev_message 0 (Some signup_message), Ev_open 1,
              Ev_message 1 (Some (JString ''hello''))]"
  let ?w2 = "\<lparr>ws = Some 1, listeners = [9], reconnectDelay = 2000, maxDelay = 30000,
             shouldReconnect = True, pingInterval = Some 2,
             sockets = [OPEN, OPEN], timeouts = [], intervals = [(1, 25000), (2, 25000)],
             next_timer = 3, waits = [], sent = [],
             calls = [(9, signup_message), (9, JString ''hello'')], uncaught = 0\<rparr>"
  have r: "run no_throw ?es (connect 9 True connected) = Some ?w2"
    by (simp add: agent_defs connected_def signup_message_def no_throw_def)
  have n: "\<forall>e\<in>set ?es. \<not> is_connect e" by simp
  from connect_single_listener [of no_throw 9 True connected "[Call_connect 7 True, Ev_open 0]"
      connected ?es ?w2] r n run_connected [of no_throw]
  show ?thesis by (simp add: connected_def)
qed

text \<open>
  C9. In every state the agent reaches, a message on an open socket is always processed to
  the end: the callback returns, no exception escapes, the sockets, the current socket and the
  listeners stay as they are, and the state it leaves is the one a listener that does not throw
  would leave, so that the rest of any run goes on as it would have. When the listener does
  throw on a relayed message, the exception is raised inside the \<^verbatim>\<open>try\<close> (after the call is
  made), where the \<^verbatim>\<open>catch\<close> drops it.
\<close>

theorem throwing_listener_contained:
  assumes "run throws es constructor = Some w" "k < length (sockets w)" "sockets w ! k = OPEN"
  shows "step throws (Ev_message k p) w = Some (onmessage throws p w)
   \<and> onmessage throws p w = onmessage no_throw p w
   \<and> uncaught (onmessage throws p w) = uncaught w
   \<and> sockets (onmessage throws p w) = sockets w
   \<and> ws (onmessage throws p w) = ws w
   \<and> listeners (onmessage throws p w) = listeners w
   \<and> run throws (Ev_message k p # es') w = run throws es' (onmessage no_throw p w)
   \<and> (listeners w = [h] \<and> throws h d \<and> d \<noteq> JNull
        \<and> get_type d \<noteq> Inr (Some (JString ''pong'')) \<longrightarrow>
        onmessage_try throws (Some d) w
          = (w\<lparr>calls := calls w @ [(h, d)]\<rparr>, Some HandlerError))"
proof -
  have le: "length (listeners w) \<le> 1"
    using run_listeners_le1 [OF assms(1)] by (simp add: constructor_def)
  have nt: "no_throw = (\<lambda>_ _. False)" by (simp add: no_throw_def fun_eq_iff)
  have s: "step throws (Ev_message k p) w = Some (onmessage throws p w)"
    using assms(2,3) by simp
  have e: "onmessage throws p w = onmessage no_throw p w"
    unfolding nt using le by (rule onmessage_nothrow)
  have t: "listeners w = [h] \<and> throws h d \<and> d \<noteq> JNull
        \<and> get_type d \<noteq> Inr (Some (JString ''pong'')) \<longrightarrow>
        onmessage_try throws (Some d) w
          = (w\<lparr>calls := calls w @ [(h, d)]\<rparr>, Some HandlerError)"
    by (auto simp: onmessage_try_def Let_def get_type_Inl split: sum.splits)
  have r: "run throws (Ev_message k p # es') w = run throws es' (onmessage no_throw p w)"
    using s e by simp
  from s e r t show ?thesis by (simp add: onmessage_fields)
qed

theorem throwing_listener_contained_witness:
  "run always_throws [Call_connect 7 True, Ev_open 0] constructor = Some connected
   \<and> onmessage_try always_throws (Some signup_message) connected
       = (connected\<lparr>calls := [(7, signup_message)]\<rparr>, Some HandlerError)
   \<and> step always_throws (Ev_message 0 (Some signup_message)) connected
       = Some (connected\<lparr>calls := [(7, signup_message)]\<rparr>)
   \<and> run always_throws [Ev_message 0 (Some signup_message), Ev_message 0 (Some (JString ''hello''))]
        connected
       = Some (connected\<lparr>calls := [(7, signup_message), (7, JString ''hello'')]\<rparr>)"
proof -
  have a: "0 < length (sockets connected)" "sockets connected ! 0 = OPEN"
    "listeners connected = [7]" "calls connected = []"
    by (simp_all add: connected_def)
  have g: "always_throws 7 signup_message" "signup_message \<noteq> JNull"
    "get_type signup_message \<noteq> Inr (Some (JString ''pong''))"
    by (simp_all add: always_throws_def signup_message_def)
  have m: "onmessage no_throw (Some signup_message) connected
      = connected\<lparr>calls := [(7, signup_message)]\<rparr>"
    by (simp add: onmessage_single [OF a(3)] relayed_def g a(4))
  have m2: "run always_throws [Ev_message 0 (Some (JString ''hello''))]
       (connected\<lparr>calls := [(7, signup_message)]\<rparr>)
      = Some (connected\<lparr>calls := [(7, signup_message), (7, JString ''hello'')]\<rparr>)"
    by (simp add: connected_def agent_defs always_throws_def)
  from throwing_listener_contained [OF run_connected a(1,2), of always_throws
      "Some signup_message" "[Ev_message 0 (Some (JString ''hello''))]" 7 signup_message]
    a g m m2 run_connected [of always_throws]
  show ?thesis by simp
qed

subsection \<open>Keepalive\<close>

lemma step_sent:
  assumes "step throws e w = Some w'"
  shows "sent w' = sent w \<or>
    (\<exists>j. ws w = Some j \<and> j < length (sockets w) \<and> sockets w ! j = OPEN \<and>
         sent w' = sent w @ [(j, ''ping'')])"
proof (cases e)
  case (Ev_message k p)
  with assms show ?thesis by (auto simp: onmessage_fields split: if_splits)
qed (use assms in \<open>auto simp: connect_def connect_internal_def disconnect_def Let_def onopen_def
       startPing_def onclose_def stopPing_fields ws_close_fields onerror_def ping_tick_def
       split: if_splits option.splits\<close>)

lemma ws_close_dead:
  assumes "k < length (sockets w)" "sockets w ! k = CLOSING \<or> sockets w ! k = CLOSED"
  shows "sockets (ws_close j w) ! k = CLOSING \<or> sockets (ws_close j w) ! k = CLOSED"
  using assms by (auto simp: ws_close_def nth_list_update)

lemma step_dead:
  assumes "step throws e w = Some w'" "k < length (sockets w)"
    "sockets w ! k = CLOSING \<or> sockets w ! k = CLOSED"
  shows "k < length (sockets w') \<and> (sockets w' ! k = CLOSING \<or> sockets w' ! k = CLOSED)"
proof (cases e)
  case (Ev_message j p)
  with assms show ?thesis by (auto simp: onmessage_fields split: if_splits)
next
  case Call_disconnect
  let ?v = "stopPing (w\<lparr>shouldReconnect := False\<rparr>)"
  have v: "k < length (sockets ?v)" "sockets ?v ! k = CLOSING \<or> sockets ?v ! k = CLOSED"
    using assms(2,3) by (simp_all add: stopPing_fields)
  have "sockets w' = sockets ?v \<or> (\<exists>j. sockets w' = sockets (ws_close j ?v))"
    using assms(1) Call_disconnect by (auto simp: disconnect_def Let_def split: option.splits)
  then show ?thesis
  proof
    assume "sockets w' = sockets ?v"
    with v show ?thesis by simp
  next
    assume "\<exists>j. sockets w' = sockets (ws_close j ?v)"
    then obtain j where j: "sockets w' = sockets (ws_close j ?v)" by blast
    from ws_close_dead [OF v, of j] v(1) show ?thesis by (simp add: j ws_close_fields)
  qed
next
  case (Ev_error j)
  have "sockets w' = sockets w \<or> (\<exists>j. sockets w' = sockets (ws_close j w))"
    using assms(1) Ev_error by (auto simp: onerror_def split: option.splits if_splits)
  then show ?thesis
  proof
    assume "sockets w' = sockets w"
    with assms(2,3) show ?thesis by simp
  next
    assume "\<exists>j. sockets w' = sockets (ws_close j w)"
    then obtain j where j: "sockets w' = sockets (ws_close j w)" by blast
    from ws_close_dead [OF assms(2,3), of j] assms(2) show ?thesis
      by (simp add: j ws_close_fields)
  qed
next
  case (Ev_open j)
  with assms show ?thesis
    by (auto simp: onopen_def startPing_def nth_list_update split: if_splits)
next
  case (Ev_close j)
  with assms show ?thesis
    by (auto simp: onclose_def Let_def stopPing_fields nth_list_update split: if_splits)
qed (use assms in \<open>auto simp: connect_def connect_internal_def ping_tick_def nth_append
       split: if_splits option.splits\<close>)

lemma run_dead_silent:
  assumes "run throws es w = Some w'" "k < length (sockets w)"
    "sockets w ! k = CLOSING \<or> sockets w ! k = CLOSED"
  shows "filter (\<lambda>p. fst p = k) (sent w') = filter (\<lambda>p. fst p = k) (sent w)"
  using assms
proof (induction es arbitrary: w)
  case Nil
  then show ?case by simp
next
  case (Cons e es)
  from Cons.prems obtain w1 where s: "step throws e w = Some w1" and r: "run throws es w1 = Some w'"
    by (auto split: option.splits)
  from step_dead [OF s Cons.prems(2,3)]
  have d1: "k < length (sockets w1)" "sockets w1 ! k = CLOSING \<or> sockets w1 ! k = CLOSED" by auto
  from step_sent [OF s] Cons.prems(3)
  have "filter (\<lambda>p. fst p = k) (sent w1) = filter (\<lambda>p. fst p = k) (sent w)" by auto
  with Cons.IH [OF r d1] show ?case by simp
qed

lemma stopPing_intervals:
  "pingInterval w = Some i \<Longrightarrow> i \<notin> fst ` set (intervals (stopPing w))"
  "fst ` set (intervals w) \<subseteq> set_option (pingInterval w) \<Longrightarrow> intervals (stopPing w) = []"
  by (auto simp: stopPing_def filter_empty_conv split: option.splits)

lemma onclose_ping:
  "pingInterval (onclose w) = None"
  "intervals (onclose w) = intervals (stopPing w)"
  "sent (onclose w) = sent w" "sockets (onclose w) = sockets w"
  by (simp_all add: onclose_def Let_def stopPing_fields)

lemma disconnect_ping:
  "pingInterval (disconnect w) = None"
  "intervals (disconnect w) = intervals (stopPing (w\<lparr>shouldReconnect := False\<rparr>))"
  "sent (disconnect w) = sent w"
  by (simp_all add: disconnect_def Let_def stopPing_fields ws_close_fields split: option.splits)

lemma disconnect_dead:
  assumes "ws w = Some k" "k < length (sockets w)"
  shows "k < length (sockets (disconnect w)) \<and>
    (sockets (disconnect w) ! k = CLOSING \<or> sockets (disconnect w) ! k = CLOSED)"
  using assms
  by (cases "sockets w ! k")
     (auto simp: disconnect_def Let_def stopPing_fields ws_close_def split: option.splits)

text \<open>
  What holds in every state, for the one timer handle the agent stores: an open event starts
  an interval timer of period 25000 ms, whatever the backoff delay is, and stores its handle; a
  tick sends exactly the text \<^verbatim>\<open>ping\<close> on the current socket when that socket is open, and
  nothing otherwise; a close event and \<^verbatim>\<open>disconnect()\<close> clear the stored handle and stop the
  timer it names; and nothing more is sent on a socket that closed or was disconnected.
\<close>

lemma stored_timer_stopped:
  "(\<forall>k w'. step throws (Ev_open k) w = Some w' \<longrightarrow>
      pingInterval w' = Some (next_timer w) \<and>
      intervals w' = intervals w @ [(next_timer w, 25000)])
   \<and> (\<forall>i w'. step throws (Ev_tick i) w = Some w' \<longrightarrow>
      w' = (case ws w of
              None \<Rightarrow> w
            | Some j \<Rightarrow> if j < length (sockets w) \<and> sockets w ! j = OPEN
                        then w\<lparr>sent := sent w @ [(j, ''ping'')]\<rparr> else w))
   \<and> (\<forall>k w'. step throws (Ev_close k) w = Some w' \<longrightarrow>
      pingInterval w' = None \<and>
      (\<forall>i. pingInterval w = Some i \<longrightarrow> step throws (Ev_tick i) w' = None) \<and>
      (fst ` set (intervals w) \<subseteq> set_option (pingInterval w) \<longrightarrow> intervals w' = []) \<and>
      (\<forall>es w''. run throws es w' = Some w'' \<longrightarrow>
         filter (\<lambda>p. fst p = k) (sent w'') = filter (\<lambda>p. fst p = k) (sent w)))
   \<and> (pingInterval (disconnect w) = None \<and>
      (\<forall>i. pingInterval w = Some i \<longrightarrow> step throws (Ev_tick i) (disconnect w) = None) \<and>
      (fst ` set (intervals w) \<subseteq> set_option (pingInterval w) \<longrightarrow> intervals (disconnect w) = []) \<and>
      (\<forall>k es w''. ws w = Some k \<and> k < length (sockets w) \<and>
         run throws es (disconnect w) = Some w'' \<longrightarrow>
         filter (\<lambda>p. fst p = k) (sent w'') = filter (\<lambda>p. fst p = k) (sent w)))"
proof (intro conjI allI impI)
  fix k w' assume "step throws (Ev_open k) w = Some w'"
  then show "pingInterval w' = Some (next_timer w)"
    and "intervals w' = intervals w @ [(next_timer w, 25000)]"
    by (auto simp: onopen_def startPing_def split: if_splits)
next
  fix i w' assume "step throws (Ev_tick i) w = Some w'"
  then show "w' = (case ws w of
              None \<Rightarrow> w
            | Some j \<Rightarrow> if j < length (sockets w) \<and> sockets w ! j = OPEN
                        then w\<lparr>sent := sent w @ [(j, ''ping'')]\<rparr> else w)"
    by (auto simp: ping_tick_def split: if_splits)
next
  fix k w' assume s: "step throws (Ev_close k) w = Some w'"
  let ?v = "w\<lparr>sockets := (sockets w)[k := CLOSED]\<rparr>"
  from s have k: "k < length (sockets w)" and w': "w' = onclose ?v"
    by (auto split: if_splits)
  show "pingInterval w' = None" by (simp add: w' onclose_ping)
  { fix i assume "pingInterval w = Some i"
    then have "pingInterval ?v = Some i" by simp
    from stopPing_intervals(1) [OF this]
    show "step throws (Ev_tick i) w' = None" by (simp add: w' onclose_ping) }
  { assume "fst ` set (intervals w) \<subseteq> set_option (pingInterval w)"
    then have "fst ` set (intervals ?v) \<subseteq> set_option (pingInterval ?v)" by simp
    from stopPing_intervals(2) [OF this]
    show "intervals w' = []" by (simp add: w' onclose_ping) }
  { fix es w'' assume r: "run throws es w' = Some w''"
    have d: "k < length (sockets w')" "sockets w' ! k = CLOSING \<or> sockets w' ! k = CLOSED"
      using k by (simp_all add: w' onclose_ping)
    from run_dead_silent [OF r d]
    show "filter (\<lambda>p. fst p = k) (sent w'') = filter (\<lambda>p. fst p = k) (sent w)"
      by (simp add: w' onclose_ping) }
next
  show "pingInterval (disconnect w) = None" by (simp add: disconnect_ping)
next
  fix i assume "pingInterval w = Some i"
  then have "pingInterval (w\<lparr>shouldReconnect := False\<rparr>) = Some i" by simp
  from stopPing_intervals(1) [OF this]
  show "step throws (Ev_tick i) (disconnect w) = None" by (simp add: disconnect_ping)
next
  assume "fst ` set (intervals w) \<subseteq> set_option (pingInterval w)"
  then have "fst ` set (intervals (w\<lparr>shouldReconnect := False\<rparr>))
      \<subseteq> set_option (pingInterval (w\<lparr>shouldReconnect := False\<rparr>))" by simp
  from stopPing_intervals(2) [OF this]
  show "intervals (disconnect w) = []" by (simp add: disconnect_ping)
next
  fix k es w''
  assume a: "ws w = Some k \<and> k < length (sockets w) \<and> run throws es (disconnect w) = Some w''"
  then have d: "k < length (sockets (disconnect w))"
      "sockets (disconnect w) ! k = CLOSING \<or> sockets (disconnect w) ! k = CLOSED"
    using disconnect_dead by auto
  from a have r: "run throws es (disconnect w) = Some w''" by simp
  from run_dead_silent [OF r d]
  show "filter (\<lambda>p. fst p = k) (sent w'') = filter (\<lambda>p. fst p = k) (sent w)"
    by (simp add: disconnect_ping)
qed

text \<open>
  C7. Each open should start a keepalive timer that is stopped when that connection closes
  or is disconnected. The code keeps a single handle for all sockets: \<^verbatim>\<open>_startPing\<close>
  overwrites it without stopping the running timer, and the \<^verbatim>\<open>onclose\<close> of any socket stops
  whichever timer is stored. First run: \<^verbatim>\<open>connect(h)\<close>, socket 0 opens, \<^verbatim>\<open>disconnect()\<close>,
  \<^verbatim>\<open>connect(h)\<close>, socket 1 opens, and only then the close event of socket 0 arrives. It stops
  the timer that the open of socket 1 started: socket 1 is open and current, no timer is
  running, and the tick of its timer can no longer occur. Second run: \<^verbatim>\<open>connect(h)\<close>,
  socket 0 opens, \<^verbatim>\<open>connect(h')\<close>, socket 1 opens, socket 0 closes. The close stops the timer
  of socket 1, and the timer started for socket 0 outlives the close of socket 0: its next tick
  sends a ping on socket 1.
\<close>

theorem keepalive_timer_not_tied_to_connection:
  "run no_throw
     [Call_connect 7 True, Ev_open 0, Call_disconnect, Call_connect 7 True, Ev_open 1, Ev_close 0]
     constructor
   = Some \<lparr>ws = Some 1, listeners = [7], reconnectDelay = 3000, maxDelay = 30000,
            shouldReconnect = True, pingInterval = None,
            sockets = [CLOSED, OPEN], timeouts = [(3, 2000)], intervals = [], next_timer = 4,
            waits = [2000], sent = [], calls = [], uncaught = 0\<rparr>
   \<and> run no_throw
     [Call_connect 7 True, Ev_open 0, Call_disconnect, Call_connect 7 True, Ev_open 1, Ev_close 0,
      Ev_tick 2]
     constructor = None
   \<and> run no_throw
     [Call_connect 7 True, Ev_open 0, Call_connect 9 True, Ev_open 1, Ev_close 0]
     constructor
   = Some \<lparr>ws = Some 1, listeners = [9], reconnectDelay = 3000, maxDelay = 30000,
            shouldReconnect = True, pingInterval = None,
            sockets = [CLOSED, OPEN], timeouts = [(3, 2000)], intervals = [(1, 25000)],
            next_timer = 4, waits = [2000], sent = [], calls = [], uncaught = 0\<rparr>
   \<and> run no_throw
     [Call_connect 7 True, Ev_open 0, Call_connect 9 True, Ev_open 1, Ev_close 0, Ev_tick 1]
     constructor
   = Some \<lparr>ws = Some 1, listeners = [9], reconnectDelay = 3000, maxDelay = 30000,
            shouldReconnect = True, pingInterval = None,
            sockets = [CLOSED, OPEN], timeouts = [(3, 2000)], intervals = [(1, 25000)],
            next_timer = 4, waits = [2000], sent = [(1, ''ping'')], calls = [], uncaught = 0\<rparr>"
  by (simp add: agent_defs)

section \<open>Properties of the server side\<close>

lemma deliver_all_fields:
  "records (deliver_all f s is h) = records h" "clock (deliver_all f s is h) = clock h"
  "live (deliver_all f s is h) = live h" "sessions (deliver_all f s is h) = sessions h"
  "next_session (deliver_all f s is h) = next_session h"
  by (induction "is" arbitrary: h) simp_all

lemma deliver_all_delivered:
  "distinct is \<Longrightarrow>
   delivered (deliver_all f s is h) i
     = (if i \<in> set is \<and> \<not> f i then delivered h i @ [s] else delivered h i)"
  by (induction "is" arbitrary: h) auto

lemma publish_ok:
  "publish True elapsed f k sm attrs h =
     (let s = \<lparr>kind = k, summary = sm, attributes = attrs,
               seq = Suc (length (records h)), timestamp = clock h + elapsed\<rparr>
      in (Inr s, deliver_all f s (live h)
                   (h\<lparr>records := records h @ [s], clock := clock h + elapsed\<rparr>)))"
  by (simp add: publish_def append_record_def Let_def)

lemma publish_fail:
  "publish False elapsed f k sm attrs h = (Inl (BroadcastError PersistenceError), h)"
  by (simp add: publish_def append_record_def)

lemma event_record_eta:
  "\<lparr>kind = kind x, summary = summary x, attributes = attributes x\<rparr> = (x::event_record)"
  by (cases x) simp

lemma map_event_record_eta:
  "map (\<lambda>x. \<lparr>kind = kind x, summary = summary x, attributes = attributes x\<rparr>) xs
     = (xs :: event_record list)"
  by (rule map_idI) (rule event_record_eta)

lemma hub_step_records:
  "records (hub_step op h)
     = records h @ map (\<lambda>e. \<lparr>kind = kind e, summary = summary e, attributes = attributes e,
           seq = Suc (length (records h)),
           timestamp = (case op of Publish r el f k sm a \<Rightarrow> clock h + el | _ \<Rightarrow> 0)\<rparr>) (published [op])"
proof (cases op)
  case (Publish r el f k sm a)
  then show ?thesis
    by (cases r) (simp_all add: publish_ok publish_fail Let_def deliver_all_fields)
next
  case (Connect c)
  then show ?thesis by (simp add: onConnect_def Let_def)
next
  case (Disconnect i)
  then show ?thesis by (simp add: onDisconnect_def)
qed

lemma published_append: "published (xs @ ys) = published xs @ published ys"
  by (induction xs rule: published.induct) simp_all

lemma published_Cons: "published (op # ops) = published [op] @ published ops"
  using published_append [of "[op]" ops] by simp

lemma length_published_single: "length (published [op]) \<le> 1"
  by (cases op) simp_all

lemma upt_join:
  "[Suc a ..< Suc (a + p)] @ [Suc (a + p) ..< Suc (a + p + q)] = [Suc a ..< Suc (a + (p + q))]"
  using upt_add_eq_append [of "Suc a" "Suc (a + p)" q] by (simp add: add.assoc)

lemma hub_run_records:
  "map event_of (records (hub_run ops h)) = map event_of (records h) @ published ops \<and>
   map seq (records (hub_run ops h))
     = map seq (records h) @ [Suc (length (records h)) ..< Suc (length (records h) + length (published ops))]"
proof (induction ops arbitrary: h)
  case Nil
  show ?case by simp
next
  case (Cons op ops)
  let ?h1 = "hub_step op h"
  have ev: "map event_of (records ?h1) = map event_of (records h) @ published [op]"
    by (simp add: hub_step_records [of op h] event_of_def comp_def map_event_record_eta)
  have len: "length (records ?h1) = length (records h) + length (published [op])"
    by (simp add: hub_step_records [of op h])
  have sq: "map seq (records ?h1) = map seq (records h)
      @ [Suc (length (records h)) ..< Suc (length (records h) + length (published [op]))]"
  proof (cases "published [op]")
    case Nil
    then show ?thesis by (simp add: hub_step_records [of op h])
  next
    case (Cons e es)
    with length_published_single [of op] have "published [op] = [e]" by simp
    then show ?thesis by (simp add: hub_step_records [of op h])
  qed
  have up: "[Suc (length (records h)) ..< Suc (length (records h) + length (published [op]))]
      @ [Suc (length (records ?h1)) ..< Suc (length (records ?h1) + length (published ops))]
      = [Suc (length (records h)) ..< Suc (length (records h) + length (published (op # ops)))]"
    unfolding len published_Cons [of op ops] length_append by (rule upt_join)
  from Cons.IH [of ?h1] show ?case
    unfolding hub_run.simps
    by (simp only: ev sq append_assoc up published_Cons [of op ops])
qed

lemma replay_recent: "replay h = drop (length (records h) - 20) (records h)"
  by (simp add: replay_def onConnect_def Let_def recent_def)

lemma records_init:
  "map event_of (records (hub_run ops hub_init)) = published ops"
  "map seq (records (hub_run ops hub_init)) = [1 ..< Suc (length (published ops))]"
  "length (records (hub_run ops hub_init)) = length (published ops)"
proof -
  from hub_run_records [of ops hub_init]
  show a: "map event_of (records (hub_run ops hub_init)) = published ops"
    and "map seq (records (hub_run ops hub_init)) = [1 ..< Suc (length (published ops))]"
    by (simp_all add: hub_init_def)
  from arg_cong [OF a, of length]
  show "length (records (hub_run ops hub_init)) = length (published ops)" by simp
qed

lemma deliver_all_recheck:
  "recheck (deliver_all f s is h) = recheck h @ filter f is"
  by (induction "is" arbitrary: h) simp_all

lemma hub_inv_init: "hub_inv hub_init"
  by (simp add: hub_inv_def hub_init_def)

lemma sorted_snoc:
  assumes "sorted_wrt (<) (map seq xs)" "\<forall>r\<in>set xs. seq r \<le> n" "n < seq a"
  shows "sorted_wrt (<) (map seq (xs @ [a]))"
  using assms by (auto simp: sorted_wrt_append)

lemma records_seq_bound:
  assumes "map seq (records h) = [1 ..< Suc (length (records h))]" "r \<in> set (records h)"
  shows "seq r \<le> length (records h)"
proof -
  from assms(2) have "seq r \<in> set (map seq (records h))" by simp
  with assms(1) have "seq r \<in> set [1 ..< Suc (length (records h))]" by simp
  then show ?thesis by (simp only: set_upt atLeastLessThan_iff) arith
qed

lemma publish_inv:
  assumes "hub_inv h"
  shows "hub_inv (snd (publish True el f k sm atts h))"
proof -
  let ?n = "length (records h)"
  let ?a = "\<lparr>kind = k, summary = sm, attributes = atts, seq = Suc ?n, timestamp = clock h + el\<rparr>"
  let ?h0 = "h\<lparr>records := records h @ [?a], clock := clock h + el\<rparr>"
  let ?h1 = "deliver_all f ?a (live h) ?h0"
  have p: "snd (publish True el f k sm atts h) = ?h1" by (simp add: publish_ok Let_def)
  from assms have d: "distinct (live h)" and b: "\<forall>i\<in>set (live h). i < next_session h"
    and s: "map seq (records h) = [1 ..< Suc ?n]"
    and o: "\<And>i. sorted_wrt (<) (map seq (delivered h i))"
    and u: "\<And>i r. r \<in> set (delivered h i) \<Longrightarrow> seq r \<le> ?n"
    by (auto simp: hub_inv_def)
  have dl: "\<And>i. delivered ?h1 i
      = (if i \<in> set (live h) \<and> \<not> f i then delivered h i @ [?a] else delivered h i)"
    using deliver_all_delivered [of "live h" f ?a ?h0] d by simp
  have 1: "distinct (live ?h1)" "\<forall>i\<in>set (live ?h1). i < next_session ?h1"
    using d b by (simp_all add: deliver_all_fields)
  have 2: "map seq (records ?h1) = [1 ..< Suc (length (records ?h1))]"
    using s by (simp add: deliver_all_fields)
  have 3: "\<And>i. sorted_wrt (<) (map seq (delivered ?h1 i))"
  proof -
    fix i
    have "sorted_wrt (<) (map seq (delivered h i @ [?a]))"
      by (rule sorted_snoc [OF o, of _ ?n]) (auto dest: u)
    with o [of i] show "sorted_wrt (<) (map seq (delivered ?h1 i))" by (simp add: dl)
  qed
  have 4: "\<And>i r. r \<in> set (delivered ?h1 i) \<Longrightarrow> seq r \<le> length (records ?h1)"
  proof -
    fix i r assume "r \<in> set (delivered ?h1 i)"
    then have "r = ?a \<or> r \<in> set (delivered h i)" by (auto simp: dl split: if_splits)
    then show "seq r \<le> length (records ?h1)"
      by (auto simp: deliver_all_fields dest: u)
  qed
  from 1 2 3 4 show ?thesis unfolding p hub_inv_def by blast
qed

lemma onConnect_inv:
  assumes "hub_inv h"
  shows "hub_inv (snd (onConnect c h))"
proof (cases c)
  case False
  with assms show ?thesis by (simp add: onConnect_def)
next
  case True
  let ?n = "length (records h)"
  let ?j = "next_session h"
  from assms have d: "distinct (live h)" and b: "\<forall>i\<in>set (live h). i < next_session h"
    and s: "map seq (records h) = [1 ..< Suc ?n]"
    and o: "\<And>i. sorted_wrt (<) (map seq (delivered h i))"
    and u: "\<And>i r. r \<in> set (delivered h i) \<Longrightarrow> seq r \<le> ?n"
    by (auto simp: hub_inv_def)
  let ?h1 = "snd (onConnect True h)"
  have f: "live ?h1 = live h @ [?j]" "next_session ?h1 = Suc ?j" "records ?h1 = records h"
    "\<And>i. delivered ?h1 i = (if i = ?j then drop (?n - 20) (records h) else delivered h i)"
    by (simp_all add: onConnect_def Let_def recent_def)
  have rs: "sorted_wrt (<) (map seq (drop (?n - 20) (records h)))"
    unfolding drop_map [symmetric] s by (rule sorted_wrt_drop) (rule sorted_wrt_upt)
  have ru: "\<And>r. r \<in> set (drop (?n - 20) (records h)) \<Longrightarrow> seq r \<le> ?n"
    using records_seq_bound [OF s] by (auto dest: in_set_dropD)
  have 1: "distinct (live ?h1)" "\<forall>i\<in>set (live ?h1). i < next_session ?h1"
    using d b by (auto simp: f)
  have 2: "map seq (records ?h1) = [1 ..< Suc (length (records ?h1))]"
    using s by (simp add: f)
  have 3: "\<And>i. sorted_wrt (<) (map seq (delivered ?h1 i))"
    using o rs by (simp add: f)
  have 4: "\<And>i r. r \<in> set (delivered ?h1 i) \<Longrightarrow> seq r \<le> length (records ?h1)"
    using u ru by (auto simp: f split: if_splits)
  from 1 2 3 4 have "hub_inv ?h1" unfolding hub_inv_def by blast
  with True show ?thesis by simp
qed

lemma onDisconnect_inv:
  assumes "hub_inv h"
  shows "hub_inv (onDisconnect i h)"
  using assms by (auto simp: hub_inv_def onDisconnect_def distinct_removeAll)

lemma hub_step_inv:
  assumes "hub_inv h"
  shows "hub_inv (hub_step op h)"
proof (cases op)
  case (Publish r el f k sm atts)
  with assms publish_inv [OF assms] show ?thesis
    by (cases r) (simp_all add: publish_fail)
next
  case (Connect c)
  with onConnect_inv [OF assms] show ?thesis by simp
next
  case (Disconnect i)
  with onDisconnect_inv [OF assms] show ?thesis by simp
qed

lemma hub_run_inv:
  assumes "hub_inv h"
  shows "hub_inv (hub_run ops h)"
  using assms by (induction ops arbitrary: h) (simp_all add: hub_step_inv)

lemma hub_step_ext:
  assumes "hub_inv h" "i < next_session h"
  shows "\<exists>e. delivered (hub_step op h) i = delivered h i @ e \<and>
    (\<forall>r\<in>set e. length (records h) < seq r) \<and>
    i < next_session (hub_step op h) \<and>
    length (records h) \<le> length (records (hub_step op h))"
proof (cases op)
  case (Publish r el f k sm atts)
  show ?thesis
  proof (cases r)
    case False
    with Publish assms(2) show ?thesis by (simp add: publish_fail)
  next
    case True
    let ?a = "\<lparr>kind = k, summary = sm, attributes = atts, seq = Suc (length (records h)),
               timestamp = clock h + el\<rparr>"
    let ?h0 = "h\<lparr>records := records h @ [?a], clock := clock h + el\<rparr>"
    from assms(1) have d: "distinct (live h)" by (simp add: hub_inv_def)
    have dl: "delivered (hub_step op h) i
        = (if i \<in> set (live h) \<and> \<not> f i then delivered h i @ [?a] else delivered h i)"
      using deliver_all_delivered [of "live h" f ?a ?h0] d Publish True
      by (simp add: publish_ok Let_def)
    have o: "next_session (hub_step op h) = next_session h"
        "length (records (hub_step op h)) = Suc (length (records h))"
      using Publish True by (simp_all add: publish_ok Let_def deliver_all_fields)
    show ?thesis
    proof (cases "i \<in> set (live h) \<and> \<not> f i")
      case True
      with dl o assms(2) show ?thesis by (intro exI [of _ "[?a]"]) simp
    next
      case False
      with dl o assms(2) show ?thesis by (intro exI [of _ "[]"]) simp
    qed
  qed
next
  case (Connect c)
  with assms(2) show ?thesis
    by (intro exI [of _ "[]"]) (simp add: onConnect_def Let_def)
next
  case (Disconnect j)
  with assms(2) show ?thesis
    by (intro exI [of _ "[]"]) (simp add: onDisconnect_def)
qed

lemma hub_run_ext:
  assumes "hub_inv h" "i < next_session h"
  shows "\<exists>e. delivered (hub_run ops h) i = delivered h i @ e \<and>
    (\<forall>r\<in>set e. length (records h) < seq r) \<and>
    i < next_session (hub_run ops h) \<and>
    length (records h) \<le> length (records (hub_run ops h))"
  using assms
proof (induction ops arbitrary: h)
  case Nil
  then show ?case by (intro exI [of _ "[]"]) simp
next
  case (Cons op ops)
  let ?h1 = "hub_step op h"
  from hub_step_ext [OF Cons.prems, of op] obtain e1 where
    e1: "delivered ?h1 i = delivered h i @ e1" "\<forall>r\<in>set e1. length (records h) < seq r"
      "i < next_session ?h1" "length (records h) \<le> length (records ?h1)" by blast
  from Cons.IH [OF hub_step_inv [OF Cons.prems(1)] e1(3)] obtain e2 where
    e2: "delivered (hub_run ops ?h1) i = delivered ?h1 i @ e2"
      "\<forall>r\<in>set e2. length (records ?h1) < seq r"
      "i < next_session (hub_run ops ?h1)"
      "length (records ?h1) \<le> length (records (hub_run ops ?h1))" by blast
  have "delivered (hub_run (op # ops) h) i = delivered h i @ (e1 @ e2)"
    using e1(1) e2(1) by simp
  moreover have "\<forall>r\<in>set (e1 @ e2). length (records h) < seq r"
    using e1(2,4) e2(2) by fastforce
  ultimately show ?case using e1(4) e2(3,4) by (intro exI [of _ "e1 @ e2"]) simp
qed

lemma publish_delivered:
  assumes "hub_inv h" "publish True el f k sm atts h = (r, h1)"
  shows "\<exists>a. r = Inr a \<and> seq a = Suc (length (records h)) \<and>
    length (records h1) = Suc (length (records h)) \<and>
    next_session h1 = next_session h \<and> live h1 = live h \<and>
    recheck h1 = recheck h @ filter f (live h) \<and>
    (\<forall>i. a \<notin> set (delivered h i)) \<and>
    (\<forall>i. delivered h1 i
       = (if i \<in> set (live h) \<and> \<not> f i then delivered h i @ [a] else delivered h i))"
proof -
  let ?a = "\<lparr>kind = k, summary = sm, attributes = atts, seq = Suc (length (records h)),
             timestamp = clock h + el\<rparr>"
  let ?h0 = "h\<lparr>records := records h @ [?a], clock := clock h + el\<rparr>"
  from assms(2) have r: "r = Inr ?a" and h1: "h1 = deliver_all f ?a (live h) ?h0"
    by (simp_all add: publish_ok Let_def)
  from assms(1) have d: "distinct (live h)"
    and u: "\<And>i x. x \<in> set (delivered h i) \<Longrightarrow> seq x \<le> length (records h)"
    by (auto simp: hub_inv_def)
  have fresh: "\<forall>i. ?a \<notin> set (delivered h i)"
  proof
    fix i show "?a \<notin> set (delivered h i)"
    proof
      assume "?a \<in> set (delivered h i)"
      from u [OF this] show False by simp
    qed
  qed
  have dl: "\<forall>i. delivered h1 i
       = (if i \<in> set (live h) \<and> \<not> f i then delivered h i @ [?a] else delivered h i)"
    unfolding h1 using deliver_all_delivered [of "live h" f ?a ?h0] d by simp
  have o: "length (records h1) = Suc (length (records h))" "next_session h1 = next_session h"
    "live h1 = live h" "recheck h1 = recheck h @ filter f (live h)"
    unfolding h1 by (simp_all add: deliver_all_fields deliver_all_recheck)
  from r o fresh dl show ?thesis by (intro exI [of _ ?a]) simp
qed

lemma hub_run_append: "hub_run (xs @ ys) h = hub_run ys (hub_run xs h)"
  by (induction xs arbitrary: h) simp_all

lemma count_after:
  assumes "hub_inv h1" "i < next_session h1" "seq a = length (records h1)"
  shows "count_list (delivered (hub_run ops h1) i) a = count_list (delivered h1 i) a"
proof -
  from hub_run_ext [OF assms(1,2), of ops] obtain e where
    e: "delivered (hub_run ops h1) i = delivered h1 i @ e"
      "\<forall>r\<in>set e. length (records h1) < seq r" by blast
  have "a \<notin> set e" using e(2) assms(3) by auto
  then have "count_list e a = 0" by (simp add: count_list_0_iff)
  with e(1) show ?thesis by simp
qed

text \<open>
  C1. After any sequence of calls, the replay batch of a freshly connecting session is the
  last \<open>min 20 n\<close> records of the log, where \<open>n\<close> is the number of publish calls that
  succeeded: it carries the last \<open>min 20 n\<close> published events in publish order, with
  ascending sequence numbers. After 25 publishes these are the events 6 to 25. On the empty
  log the batch is empty.
\<close>

theorem replay_last_20:
  "replay (hub_run ops hub_init)
     = drop (length (published ops) - 20) (records (hub_run ops hub_init))
   \<and> length (replay (hub_run ops hub_init)) = min 20 (length (published ops))
   \<and> map event_of (replay (hub_run ops hub_init))
       = drop (length (published ops) - 20) (published ops)
   \<and> map seq (replay (hub_run ops hub_init))
       = [Suc (length (published ops) - 20) ..< Suc (length (published ops))]
   \<and> (length (published ops) = 25 \<longrightarrow>
        map seq (replay (hub_run ops hub_init)) = [6 ..< 26])
   \<and> replay hub_init = []"
proof -
  let ?h = "hub_run ops hub_init" and ?n = "length (published ops)"
  have r: "replay ?h = drop (?n - 20) (records ?h)"
    by (simp add: replay_recent records_init(3))
  have l: "length (replay ?h) = min 20 ?n"
    unfolding r by (simp add: records_init(3))
  have e: "map event_of (replay ?h) = drop (?n - 20) (published ops)"
    unfolding r drop_map [symmetric] records_init(1) ..
  have "drop (?n - 20) [1 ..< Suc ?n] = [Suc (?n - 20) ..< Suc ?n]"
    by (simp add: drop_upt, arith)
  then have s: "map seq (replay ?h) = [Suc (?n - 20) ..< Suc ?n]"
    unfolding r drop_map [symmetric] records_init(2) .
  have c: "?n = 25 \<longrightarrow> map seq (replay ?h) = [6 ..< 26]"
    unfolding s by simp
  have i: "replay hub_init = []"
    by (simp add: replay_recent hub_init_def)
  from r l e s c i show ?thesis by blast
qed

theorem replay_last_20_witness:
  "length (published login_events) = 25
   \<and> map seq (replay (hub_run login_events hub_init)) = [6 ..< 26]
   \<and> map attributes (replay (hub_run login_events hub_init))
       = map (\<lambda>i. [(''n'', SNumber (int i))]) [6 ..< 26]"
proof -
  have p: "published login_events
      = map (\<lambda>i. \<lparr>kind = admin_login, summary = ''Admin login'',
                   attributes = [(''n'', SNumber (int i))]\<rparr>) [1 ..< 26]"
    unfolding login_events_def by (simp add: upt_rec)
  then have n: "length (published login_events) = 25" by simp
  note t = replay_last_20 [of login_events]
  from t have "length (published login_events) = 25 \<longrightarrow>
      map seq (replay (hub_run login_events hub_init)) = [6 ..< 26]"
    by (elim conjE)
  from this n have s: "map seq (replay (hub_run login_events hub_init)) = [6 ..< 26]"
    by (rule mp)
  from t have "map event_of (replay (hub_run login_events hub_init))
      = drop (length (published login_events) - 20) (published login_events)"
    by (elim conjE)
  then have e: "map event_of (replay (hub_run login_events hub_init))
      = drop 5 (published login_events)"
    by (simp add: n)
  have "map attributes (replay (hub_run login_events hub_init))
      = map attributes (map event_of (replay (hub_run login_events hub_init)))"
    by (simp add: event_of_def comp_def)
  also have "\<dots> = map (\<lambda>i. [(''n'', SNumber (int i))]) [6 ..< 26]"
    unfolding e p by (simp add: upt_rec)
  finally show ?thesis using n s by simp
qed

text \<open>
  C2. When the append of the Event Log Store fails, publish returns
  \<open>BroadcastError PersistenceError\<close> and leaves the server as it was: nothing is delivered to
  any session and the live set is unchanged. The append fails whenever the backend is
  unreachable.
\<close>

theorem publish_append_failure:
  "(append_record reachable elapsed \<lparr>kind = k, summary = sm, attributes = attrs\<rparr> h = Inl e
      \<longrightarrow> publish reachable elapsed write_fails k sm attrs h
            = (Inl (BroadcastError PersistenceError), h))
   \<and> append_record False elapsed \<lparr>kind = k, summary = sm, attributes = attrs\<rparr> h
       = Inl PersistenceError"
  by (cases e) (simp add: publish_def append_record_def Let_def)

theorem publish_append_failure_witness:
  "live one_session = [0]
   \<and> append_record False 1 \<lparr>kind = admin_login, summary = ''Admin login'', attributes = []\<rparr>
        one_session = Inl PersistenceError
   \<and> publish False 1 (\<lambda>_. False) admin_login ''Admin login'' [] one_session
       = (Inl (BroadcastError PersistenceError), one_session)"
proof -
  have l: "live one_session = [0]"
    by (simp add: one_session_def onConnect_def hub_init_def Let_def)
  have a: "append_record False 1 \<lparr>kind = admin_login, summary = ''Admin login'', attributes = []\<rparr>
        one_session = Inl PersistenceError"
    by (simp add: append_record_def)
  from publish_append_failure
    [of False 1 admin_login "''Admin login''" "[]" one_session PersistenceError "\<lambda>_. False"] a l
  show ?thesis by simp
qed

text \<open>
  C3, as the claim states it, fails: delivery to a session is best effort. With one active
  session whose socket write fails, a publish succeeds and the session receives nothing.
\<close>

theorem failed_write_drops_event:
  "live one_session = [0]
   \<and> fst (publish True 1 always_fails admin_login ''Admin login: a@b.com''
            [(''email'', SString ''a@b.com'')] one_session)
       = Inr \<lparr>kind = admin_login, summary = ''Admin login: a@b.com'',
               attributes = [(''email'', SString ''a@b.com'')], seq = 1, timestamp = 1\<rparr>
   \<and> delivered (snd (publish True 1 always_fails admin_login ''Admin login: a@b.com''
            [(''email'', SString ''a@b.com'')] one_session)) 0 = []"
  by (simp add: one_session_def onConnect_def hub_init_def Let_def publish_ok recent_def always_fails_def)

text \<open>
  C3, amended. Let A be published on a server reached by any sequence of calls, then, after
  any further calls, B, and let any calls follow. Both publishes succeed and B gets the larger
  sequence number. The sessions whose write failed are handed to the Session Manager, in the
  order of the live set. At any later time, a session that was live when A was published has
  received A exactly once if its write of A did not fail and never if it failed, and likewise
  for B; a session that had left before A was published never receives A; a session live at
  both publishes whose writes both succeeded has received A before B; and everything any
  session has received is in strictly ascending sequence order, so nothing arrives twice or
  out of publish order.
\<close>

theorem fanout_delivery:
  assumes "h = hub_run ops hub_init"
    and "publish True elA fA kA smA atA h = (ra, hA)"
    and "h' = hub_run mid hA"
    and "publish True elB fB kB smB atB h' = (rb, hB)"
    and "hZ = hub_run later hB"
  shows "\<exists>a b. ra = Inr a \<and> rb = Inr b \<and> seq a < seq b
     \<and> recheck hA = recheck h @ filter fA (live h)
     \<and> recheck hB = recheck h' @ filter fB (live h')
     \<and> (\<forall>i\<in>set (live h). count_list (delivered hZ i) a = (if fA i then 0 else 1))
     \<and> (\<forall>i\<in>set (live h'). count_list (delivered hZ i) b = (if fB i then 0 else 1))
     \<and> (\<forall>i. i < next_session h \<and> i \<notin> set (live h) \<longrightarrow> count_list (delivered hZ i) a = 0)
     \<and> (\<forall>i\<in>set (live h) \<inter> set (live h'). \<not> fA i \<and> \<not> fB i \<longrightarrow>
           (\<exists>xs ys zs. delivered hZ i = xs @ a # ys @ b # zs))
     \<and> (\<forall>i. sorted_wrt (<) (map seq (delivered hZ i)))"
proof -
  have ih: "hub_inv h" unfolding assms(1) by (rule hub_run_inv [OF hub_inv_init])
  from publish_delivered [OF ih assms(2)] obtain a where
    a: "ra = Inr a" "seq a = Suc (length (records h))"
      "length (records hA) = Suc (length (records h))" "next_session hA = next_session h"
      "live hA = live h" "recheck hA = recheck h @ filter fA (live h)"
      "\<forall>i. a \<notin> set (delivered h i)"
      "\<forall>i. delivered hA i
         = (if i \<in> set (live h) \<and> \<not> fA i then delivered h i @ [a] else delivered h i)"
    by blast
  have iA: "hub_inv hA" using publish_inv [OF ih, of elA fA kA smA atA] assms(2) by simp
  have ih': "hub_inv h'" unfolding assms(3) by (rule hub_run_inv [OF iA])
  from publish_delivered [OF ih' assms(4)] obtain b where
    b: "rb = Inr b" "seq b = Suc (length (records h'))"
      "length (records hB) = Suc (length (records h'))" "next_session hB = next_session h'"
      "live hB = live h'" "recheck hB = recheck h' @ filter fB (live h')"
      "\<forall>i. b \<notin> set (delivered h' i)"
      "\<forall>i. delivered hB i
         = (if i \<in> set (live h') \<and> \<not> fB i then delivered h' i @ [b] else delivered h' i)"
    by blast
  have iB: "hub_inv hB" using publish_inv [OF ih', of elB fB kB smB atB] assms(4) by simp
  have iZ: "hub_inv hZ" unfolding assms(5) by (rule hub_run_inv [OF iB])
  have bh: "\<And>i. i \<in> set (live h) \<Longrightarrow> i < next_session h"
    using ih by (simp add: hub_inv_def)
  have bh': "\<And>i. i \<in> set (live h') \<Longrightarrow> i < next_session h'"
    using ih' by (simp add: hub_inv_def)
  have Z: "hZ = hub_run (mid @ Publish True elB fB kB smB atB # later) hA"
    unfolding assms(5) hub_run_append using assms(3,4) by simp
  have cntA: "\<And>i. i < next_session h \<Longrightarrow>
      count_list (delivered hZ i) a = (if i \<in> set (live h) \<and> \<not> fA i then 1 else 0)"
  proof -
    fix i assume i: "i < next_session h"
    have "count_list (delivered h i) a = 0" using a(7) by (simp add: count_list_0_iff)
    then have "count_list (delivered hA i) a = (if i \<in> set (live h) \<and> \<not> fA i then 1 else 0)"
      using a(8) by simp
    moreover have "count_list (delivered hZ i) a = count_list (delivered hA i) a"
      unfolding Z by (rule count_after [OF iA]) (simp_all add: a i)
    ultimately show "count_list (delivered hZ i) a
        = (if i \<in> set (live h) \<and> \<not> fA i then 1 else 0)" by simp
  qed
  have cntB: "\<And>i. i \<in> set (live h') \<Longrightarrow>
      count_list (delivered hZ i) b = (if fB i then 0 else 1)"
  proof -
    fix i assume i: "i \<in> set (live h')"
    have "count_list (delivered h' i) b = 0" using b(7) by (simp add: count_list_0_iff)
    then have "count_list (delivered hB i) b = (if fB i then 0 else 1)"
      using b(8) i by simp
    moreover have "count_list (delivered hZ i) b = count_list (delivered hB i) b"
      unfolding assms(5) by (rule count_after [OF iB]) (simp_all add: b bh' [OF i])
    ultimately show "count_list (delivered hZ i) b = (if fB i then 0 else 1)" by simp
  qed
  have lt: "seq a < seq b"
  proof -
    have "length (records hA) \<le> length (records h')"
    proof (cases "0 < next_session hA")
      case True
      from hub_run_ext [OF iA True, of mid] show ?thesis unfolding assms(3) by blast
    next
      case False
      have "length (records (hub_run mid hA)) = length (records hA) + length (published mid)"
        using arg_cong [OF conjunct1 [OF hub_run_records [of mid hA]], of length] by simp
      then show ?thesis unfolding assms(3) by simp
    qed
    with a(2,3) b(2) show ?thesis by simp
  qed
  have ord: "\<And>i. i \<in> set (live h) \<inter> set (live h') \<Longrightarrow> \<not> fA i \<and> \<not> fB i \<Longrightarrow>
      \<exists>xs ys zs. delivered hZ i = xs @ a # ys @ b # zs"
  proof -
    fix i assume i: "i \<in> set (live h) \<inter> set (live h')" and f: "\<not> fA i \<and> \<not> fB i"
    from i f a(8) have dA: "delivered hA i = delivered h i @ [a]" by simp
    from i have "i < next_session hA" using bh a(4) by simp
    from hub_run_ext [OF iA this, of mid] obtain e1 where
      "delivered h' i = delivered hA i @ e1" unfolding assms(3) by blast
    moreover from i f b(8) have "delivered hB i = delivered h' i @ [b]" by simp
    moreover from i have "i < next_session hB" using bh' b(4) by simp
    from hub_run_ext [OF iB this, of later] obtain e2 where
      "delivered hZ i = delivered hB i @ e2" unfolding assms(5) by blast
    ultimately have "delivered hZ i = delivered h i @ a # e1 @ b # e2" using dA by simp
    then show "\<exists>xs ys zs. delivered hZ i = xs @ a # ys @ b # zs" by blast
  qed
  have srt: "\<forall>i. sorted_wrt (<) (map seq (delivered hZ i))"
    using iZ by (simp add: hub_inv_def)
  have c1: "\<forall>i\<in>set (live h). count_list (delivered hZ i) a = (if fA i then 0 else 1)"
    using cntA bh by simp
  have c2: "\<forall>i\<in>set (live h'). count_list (delivered hZ i) b = (if fB i then 0 else 1)"
    using cntB by simp
  have c3: "\<forall>i. i < next_session h \<and> i \<notin> set (live h) \<longrightarrow> count_list (delivered hZ i) a = 0"
    using cntA by simp
  have c4: "\<forall>i\<in>set (live h) \<inter> set (live h'). \<not> fA i \<and> \<not> fB i \<longrightarrow>
           (\<exists>xs ys zs. delivered hZ i = xs @ a # ys @ b # zs)"
    using ord by blast
  from a(1) b(1) lt a(6) b(6) c1 c2 c3 c4 srt show ?thesis by blast
qed

theorem fanout_delivery_witness:
  "live (hub_run two_sessions hub_init) = [0, 1]
   \<and> delivered (hub_run (two_sessions @
        [Publish True 1 write_ok user_signup ''New user registered'' [],
         Connect True,
         Publish True 1 second_write_fails admin_login ''Admin login'' [],
         Disconnect 0,
         Publish True 1 write_ok strategy_generated ''Strategy generated'' []]) hub_init) 0
     = [\<lparr>kind = user_signup, summary = ''New user registered'', attributes = [],
          seq = 1, timestamp = 1\<rparr>,
        \<lparr>kind = admin_login, summary = ''Admin login'', attributes = [],
          seq = 2, timestamp = 2\<rparr>]
   \<and> delivered (hub_run (two_sessions @
        [Publish True 1 write_ok user_signup ''New user registered'' [],
         Connect True,
         Publish True 1 second_write_fails admin_login ''Admin login'' [],
         Disconnect 0,
         Publish True 1 write_ok strategy_generated ''Strategy generated'' []]) hub_init) 1
     = [\<lparr>kind = user_signup, summary = ''New user registered'', attributes = [],
          seq = 1, timestamp = 1\<rparr>,
        \<lparr>kind = strategy_generated, summary = ''Strategy generated'', attributes = [],
          seq = 3, timestamp = 3\<rparr>]
   \<and> delivered (hub_run (two_sessions @
        [Publish True 1 write_ok user_signup ''New user registered'' [],
         Connect True,
         Publish True 1 second_write_fails admin_login ''Admin login'' [],
         Disconnect 0,
         Publish True 1 write_ok strategy_generated ''Strategy generated'' []]) hub_init) 2
     = [\<lparr>kind = user_signup, summary = ''New user registered'', attributes = [],
          seq = 1, timestamp = 1\<rparr>,
        \<lparr>kind = admin_login, summary = ''Admin login'', attributes = [],
          seq = 2, timestamp = 2\<rparr>,
        \<lparr>kind = strategy_generated, summary = ''Strategy generated'', attributes = [],
          seq = 3, timestamp = 3\<rparr>]
   \<and> recheck (hub_run (two_sessions @
        [Publish True 1 write_ok user_signup ''New user registered'' [],
         Connect True,
         Publish True 1 second_write_fails admin_login ''Admin login'' [],
         Disconnect 0,
         Publish True 1 write_ok strategy_generated ''Strategy generated'' []]) hub_init) = [1]"
proof -
  let ?h = "hub_run two_sessions hub_init"
  let ?pa = "publish True 1 write_ok user_signup ''New user registered'' [] ?h"
  let ?h' = "hub_run [Connect True] (snd ?pa)"
  let ?pb = "publish True 1 second_write_fails admin_login ''Admin login'' [] ?h'"
  let ?later = "[Disconnect 0, Publish True 1 write_ok strategy_generated ''Strategy generated'' []]"
  let ?hZ = "hub_run ?later (snd ?pb)"
  have run: "hub_run (two_sessions @
        [Publish True 1 write_ok user_signup ''New user registered'' [],
         Connect True,
         Publish True 1 second_write_fails admin_login ''Admin login'' [],
         Disconnect 0,
         Publish True 1 write_ok strategy_generated ''Strategy generated'' []]) hub_init = ?hZ"
    by (simp add: two_sessions_def)
  have l: "live ?h = [0, 1]"
    by (simp add: two_sessions_def onConnect_def hub_init_def Let_def)
  note t = fanout_delivery [where later = ?later and mid = "[Connect True]",
      OF refl surjective_pairing [of ?pa] refl surjective_pairing [of ?pb] refl]
  have v: "delivered ?hZ 0
     = [\<lparr>kind = user_signup, summary = ''New user registered'', attributes = [],
          seq = 1, timestamp = 1\<rparr>,
        \<lparr>kind = admin_login, summary = ''Admin login'', attributes = [],
          seq = 2, timestamp = 2\<rparr>]"
    "delivered ?hZ (Suc 0)
     = [\<lparr>kind = user_signup, summary = ''New user registered'', attributes = [],
          seq = 1, timestamp = 1\<rparr>,
        \<lparr>kind = strategy_generated, summary = ''Strategy generated'', attributes = [],
          seq = 3, timestamp = 3\<rparr>]"
    "delivered ?hZ 2
     = [\<lparr>kind = user_signup, summary = ''New user registered'', attributes = [],
          seq = 1, timestamp = 1\<rparr>,
        \<lparr>kind = admin_login, summary = ''Admin login'', attributes = [],
          seq = 2, timestamp = 2\<rparr>,
        \<lparr>kind = strategy_generated, summary = ''Strategy generated'', attributes = [],
          seq = 3, timestamp = 3\<rparr>]"
    "recheck ?hZ = [Suc 0]"
    by (simp_all add: two_sessions_def onConnect_def onDisconnect_def hub_init_def Let_def
        recent_def publish_ok write_ok_def second_write_fails_def)
  from t l v show ?thesis unfolding run by simp
qed

end
